theory Spec2Isabelle
  imports Main "HOL-Library.Word"
begin

unbundle bit_operations_syntax

section \<open>The framed message: class chat_message\<close>

text \<open>
  A \<^verbatim>\<open>std::string\<close> and the array \<^verbatim>\<open>char data_[header_length + max_body_length]\<close>
  are lists of 8-bit characters (\<^typ>\<open>string\<close>). \<^verbatim>\<open>std::size_t\<close> is a 64-bit
  unsigned word and \<^verbatim>\<open>int\<close> a 32-bit two's complement word.
\<close>

type_synonym size_t = "64 word"
type_synonym cint = "32 word"

definition header_length :: nat where
  "header_length = 4"

definition max_body_length :: size_t where
  "max_body_length = 512"

text \<open>
  Field names drop the trailing underscore of the source (\<^verbatim>\<open>data_\<close> is \<open>data\<close>), which
  is not an identifier here.
\<close>

record chat_message =
  data :: string
  body_length :: size_t

text \<open>
  Integral promotion of a plain \<^verbatim>\<open>char\<close> to \<^verbatim>\<open>int\<close>. Whether plain \<^verbatim>\<open>char\<close> is
  signed is fixed by the platform, not by the source: it is signed under the x86 and
  x86-64 conventions of GCC, Clang and MSVC, and unsigned under the ARM Linux one. The
  flag \<open>char_signed\<close> carries that choice; a signed \<^verbatim>\<open>char\<close> is sign-extended.
\<close>

definition char_to_int :: "bool \<Rightarrow> char \<Rightarrow> cint" where
  "char_to_int char_signed c =
     (if char_signed then scast (of_char c :: 8 word) else ucast (of_char c :: 8 word))"

text \<open>Conversion of an \<^verbatim>\<open>int\<close> to \<^verbatim>\<open>std::size_t\<close>: the value modulo \<open>2 ^ 64\<close>, that is sign extension.\<close>

definition int_to_size_t :: "cint \<Rightarrow> size_t" where
  "int_to_size_t i = scast i"

text \<open>Storing a \<^verbatim>\<open>std::size_t\<close> into a \<^verbatim>\<open>char\<close> keeps the low eight bits.\<close>

definition size_t_to_char :: "size_t \<Rightarrow> char" where
  "size_t_to_char n = char_of (unat n)"

text \<open>\<^verbatim>\<open>std::memcpy(dst + off, src, n)\<close> on a buffer held as a list.\<close>

definition memcpy :: "string \<Rightarrow> nat \<Rightarrow> string \<Rightarrow> nat \<Rightarrow> string" where
  "memcpy dst off src n = take off dst @ take n src @ drop (off + n) dst"

definition encode_header :: "chat_message \<Rightarrow> chat_message" where
  "encode_header m =
     m\<lparr>data := (data m)
        [0 := size_t_to_char (drop_bit 24 (body_length m) AND 0xFF),
         1 := size_t_to_char (drop_bit 16 (body_length m) AND 0xFF),
         2 := size_t_to_char (drop_bit 8 (body_length m) AND 0xFF),
         3 := size_t_to_char (body_length m AND 0xFF)]\<rparr>"

text \<open>
  \<^verbatim>\<open>decode_header\<close> returns its \<^verbatim>\<open>bool\<close> together with the updated message. The
  four shifted operands are \<^verbatim>\<open>int\<close>s, their disjunction is an \<^verbatim>\<open>int\<close>, and the
  assignment to \<^verbatim>\<open>body_length_\<close> converts it to \<^verbatim>\<open>std::size_t\<close>. A left shift keeps
  the low 32 bits, as two's complement hardware and C++20 have it. With a 32-bit
  \<^verbatim>\<open>std::size_t\<close> the comparison with 512 comes out the same.
\<close>

definition decode_header :: "bool \<Rightarrow> chat_message \<Rightarrow> bool \<times> chat_message" where
  "decode_header char_signed m =
     (let d = data m;
          v = int_to_size_t
                (push_bit 24 (char_to_int char_signed (d ! 0)) OR
                 push_bit 16 (char_to_int char_signed (d ! 1)) OR
                 push_bit 8 (char_to_int char_signed (d ! 2)) OR
                 char_to_int char_signed (d ! 3));
          m1 = m\<lparr>body_length := v\<rparr>
      in if body_length m1 > max_body_length
         then (False, m1\<lparr>body_length := 0\<rparr>)
         else (True, m1))"

text \<open>The \<^verbatim>\<open>int\<close> that \<^verbatim>\<open>decode_header\<close> computes from the four header bytes.\<close>

abbreviation header_int :: "bool \<Rightarrow> char \<Rightarrow> char \<Rightarrow> char \<Rightarrow> char \<Rightarrow> cint" where
  "header_int char_signed a b c d \<equiv>
     push_bit 24 (char_to_int char_signed a) OR push_bit 16 (char_to_int char_signed b) OR
     push_bit 8 (char_to_int char_signed c) OR char_to_int char_signed d"

text \<open>
  The default constructor of \<^verbatim>\<open>server.cpp\<close> zeroes the header. The bytes a constructor
  leaves indeterminate are taken as zero: every one of them is written before it is read
  or sent.
\<close>

definition chat_message_default :: chat_message where
  "chat_message_default =
     \<lparr>data = replicate (header_length + unat max_body_length) (CHR 0x00), body_length = 0\<rparr>"

text \<open>The constructor \<^verbatim>\<open>chat_message(std::string const& msg)\<close>.\<close>

definition chat_message_of :: "string \<Rightarrow> chat_message" where
  "chat_message_of msg =
     (let n = (of_nat (length msg) :: size_t);
          n' = (if n > max_body_length then max_body_length else n)
      in encode_header
           \<lparr>data = memcpy (replicate (header_length + unat max_body_length) (CHR 0x00))
                      header_length msg (unat n'),
            body_length = n'\<rparr>)"

text \<open>
  \<^verbatim>\<open>length()\<close> and the bytes of \<^verbatim>\<open>body()\<close>; \<^verbatim>\<open>body_length()\<close> is the field itself.
\<close>

definition length_msg :: "chat_message \<Rightarrow> size_t" where
  "length_msg m = of_nat header_length + body_length m"

definition body :: "chat_message \<Rightarrow> string" where
  "body m = take (unat (body_length m)) (drop header_length (data m))"

text \<open>
  The bytes handed to the socket by \<^verbatim>\<open>buffer(data(), length())\<close>: the frame on the wire.
\<close>

definition frame :: "chat_message \<Rightarrow> string" where
  "frame m = take (unat (length_msg m)) (data m)"

text \<open>
  A completed \<^verbatim>\<open>async_read\<close> into \<^verbatim>\<open>buffer(data(), header_length)\<close> and into
  \<^verbatim>\<open>buffer(body(), body_length())\<close>: the received bytes overwrite that part of \<^verbatim>\<open>data_\<close>.
\<close>

definition recv_header :: "string \<Rightarrow> chat_message \<Rightarrow> chat_message" where
  "recv_header bytes m = m\<lparr>data := memcpy (data m) 0 bytes header_length\<rparr>"

definition recv_body :: "string \<Rightarrow> chat_message \<Rightarrow> chat_message" where
  "recv_body bytes m =
     m\<lparr>data := memcpy (data m) header_length bytes (unat (body_length m))\<rparr>"

text \<open>
  The value the spec speaks of: the first four bytes read as a big-endian unsigned number.
\<close>

definition be_value :: "string \<Rightarrow> nat" where
  "be_value h =
     of_char (h ! 0) * 2 ^ 24 + of_char (h ! 1) * 2 ^ 16 + of_char (h ! 2) * 2 ^ 8 +
     of_char (h ! 3)"

section \<open>The socket, the session and the room: data\<close>

datatype auth_state = NOT_AUTHED | AUTHED | FAILED

text \<open>
  What the session asks of its \<^verbatim>\<open>tcp::socket\<close>: the \<^verbatim>\<open>async_read\<close> operations issued
  and not yet completed, the number of \<^verbatim>\<open>async_write\<close> operations issued and not yet
  completed, and the frames handed to \<^verbatim>\<open>async_write\<close>, oldest first.
\<close>

datatype read_op = Read_header | Read_body

record tcp_socket =
  reads_pending :: "read_op list"
  writes_in_flight :: nat
  wire :: "string list"

text \<open>
  A session is known by its address, a natural number; \<^verbatim>\<open>chat_participant_ptr\<close> is that
  address, and an address is not handed out twice. The reference \<^verbatim>\<open>room_\<close> of every
  session is the one room of the server.
\<close>

record chat_session =
  socket :: tcp_socket
  state :: auth_state
  nickname :: string
  read_msg :: chat_message
  write_msgs :: "chat_message list"

record chat_room =
  room_name :: string
  participants :: "nat set"
  recent_msgs :: "string list"

definition max_recent_msgs :: nat where
  "max_recent_msgs = 100"

text \<open>
  The server: its room, the store of sessions by address, and the address the next
  \<^verbatim>\<open>std::make_shared<chat_session>\<close> returns.
\<close>

record world =
  room :: chat_room
  sessions :: "nat \<Rightarrow> chat_session"
  next_session :: nat

definition upd_session :: "nat \<Rightarrow> (chat_session \<Rightarrow> chat_session) \<Rightarrow> world \<Rightarrow> world" where
  "upd_session p f w = w\<lparr>sessions := (sessions w)(p := f (sessions w p))\<rparr>"

subsection \<open>The string literals of the source, as the bytes of the file\<close>

definition history_delimiter :: string where
  "history_delimiter =
     ''----------'' @
     map char_of [0xE4, 0xBB, 0xA5, 0xE4, 0xB8, 0x8A, 0xE6, 0x98, 0xAF, 0xE5, 0x8E, 0x86, 0xE5, 0x8F,
       0xB2, 0xE8, 0x81, 0x8A, 0xE5, 0xA4, 0xA9, 0xE8, 0xAE, 0xB0, 0xE5, 0xBD, 0x95 :: nat] @
     ''----------''"

definition joined_suffix :: string where
  "joined_suffix =
     map char_of [0xE5, 0x8A, 0xA0, 0xE5, 0x85, 0xA5, 0xE4, 0xBA, 0x86, 0xE8, 0x81, 0x8A, 0xE5, 0xA4,
       0xA9, 0xE5, 0xAE, 0xA4, 0xE2, 0x80, 0x95, 0xE2, 0x80, 0x95 :: nat]"

definition welcome_prefix :: string where
  "welcome_prefix =
     map char_of [0xE6, 0xAC, 0xA2, 0xE8, 0xBF, 0x8E, 0xE6, 0x9D, 0xA5, 0xE5, 0x88, 0xB0, 0xE8, 0x81,
       0x8A, 0xE5, 0xA4, 0xA9, 0xE5, 0xAE, 0xA4 :: nat] @ ''[''"

definition welcome_suffix :: string where
  "welcome_suffix =
     '']'' @
     map char_of [0xEF, 0xBC, 0x8C, 0xE8, 0xAF, 0xB7, 0xE8, 0xBE, 0x93, 0xE5, 0x85, 0xA5, 0xE4, 0xBD,
       0xA0, 0xE7, 0x9A, 0x84, 0xE7, 0x94, 0xA8, 0xE6, 0x88, 0xB7, 0xE5, 0x90, 0x8D, 0xEF, 0xBC,
       0x9A :: nat]"

definition auth_ok_text :: string where
  "auth_ok_text =
     ''----------'' @
     map char_of [0xE9, 0x80, 0x9A, 0xE8, 0xBF, 0x87, 0xE9, 0xAA, 0x8C, 0xE8, 0xAF, 0x81, 0xEF, 0xBC,
       0x8C, 0xE5, 0xBC, 0x80, 0xE5, 0xA7, 0x8B, 0xE8, 0x81, 0x8A, 0xE5, 0xA4, 0xA9 :: nat] @
     ''----------'' @ [CHR 0x0A, CHR 0x0A]"

section \<open>chat_session: deliver and the write loop\<close>

text \<open>
  \<^verbatim>\<open>do_write\<close> hands the frame of \<^verbatim>\<open>write_msgs_.front()\<close> to \<^verbatim>\<open>async_write\<close>. Both
  callers have just seen the queue non-empty; \<^verbatim>\<open>front()\<close> of an empty queue is not
  reached, and the model leaves the session as it is there.
\<close>

definition do_write :: "chat_session \<Rightarrow> chat_session" where
  "do_write s =
     (case write_msgs s of
        [] \<Rightarrow> s
      | m # _ \<Rightarrow>
          s\<lparr>socket := (socket s)
               \<lparr>writes_in_flight := Suc (writes_in_flight (socket s)),
                wire := wire (socket s) @ [frame m]\<rparr>\<rparr>)"

text \<open>
  \<^verbatim>\<open>chat_session::deliver\<close>; \<^verbatim>\<open>write_msgs_.push_back(msg)\<close> builds the
  \<^verbatim>\<open>chat_message\<close> from the string.
\<close>

definition session_deliver :: "string \<Rightarrow> chat_session \<Rightarrow> chat_session" where
  "session_deliver msg s =
     (let write_in_progress = (write_msgs s \<noteq> []);
          s1 = s\<lparr>write_msgs := write_msgs s @ [chat_message_of msg]\<rparr>
      in if \<not> write_in_progress then do_write s1 else s1)"

text \<open>
  The success branch of the completion handler of \<^verbatim>\<open>do_write\<close>: \<^verbatim>\<open>pop_front\<close>, then the
  next write if the queue is not empty. The handler runs for a write that was issued, whose
  message is still at the head of the queue (\<open>write_inv\<close> below): \<^verbatim>\<open>pop_front\<close> never
  meets an empty queue.
\<close>

definition pop_and_continue :: "chat_session \<Rightarrow> chat_session" where
  "pop_and_continue s =
     (let s1 = s\<lparr>write_msgs := tl (write_msgs s)\<rparr>
      in if write_msgs s1 \<noteq> [] then do_write s1 else s1)"

definition do_read_header :: "chat_session \<Rightarrow> chat_session" where
  "do_read_header s =
     s\<lparr>socket := (socket s)\<lparr>reads_pending := reads_pending (socket s) @ [Read_header]\<rparr>\<rparr>"

definition do_read_body :: "chat_session \<Rightarrow> chat_session" where
  "do_read_body s =
     s\<lparr>socket := (socket s)\<lparr>reads_pending := reads_pending (socket s) @ [Read_body]\<rparr>\<rparr>"

text \<open>The constructor of \<^verbatim>\<open>chat_session\<close> and \<^verbatim>\<open>start\<close>.\<close>

definition new_session :: chat_session where
  "new_session =
     \<lparr>socket = \<lparr>reads_pending = [], writes_in_flight = 0, wire = []\<rparr>,
      state = NOT_AUTHED, nickname = [], read_msg = chat_message_default, write_msgs = []\<rparr>"

definition start :: "string \<Rightarrow> chat_session \<Rightarrow> chat_session" where
  "start rname s = do_read_header (session_deliver (welcome_prefix @ rname @ welcome_suffix) s)"

section \<open>chat_room\<close>

text \<open>
  The loop \<^verbatim>\<open>for (const auto& participant : participants_)\<close> of \<^verbatim>\<open>deliver\<close> and of
  \<^verbatim>\<open>system_prompt\<close>, over the members in the order of the \<^verbatim>\<open>std::set\<close>.
\<close>

fun deliver_to :: "string \<Rightarrow> nat \<Rightarrow> nat list \<Rightarrow> (nat \<Rightarrow> chat_session) \<Rightarrow> (nat \<Rightarrow> chat_session)" where
  "deliver_to text excluded [] ss = ss"
| "deliver_to text excluded (p # ps) ss =
     deliver_to text excluded ps
       (if excluded \<noteq> p then ss(p := session_deliver text (ss p)) else ss)"

definition room_system_prompt :: "string \<Rightarrow> nat \<Rightarrow> world \<Rightarrow> world" where
  "room_system_prompt msg blocked_user w =
     (let text = ''system prompt: '' @ msg
      in w\<lparr>sessions :=
             deliver_to text blocked_user (sorted_list_of_set (participants (room w))) (sessions w)\<rparr>)"

text \<open>The loop \<^verbatim>\<open>for (const auto& msg : recent_msgs_) participant->deliver(msg)\<close>.\<close>

fun replay :: "string list \<Rightarrow> chat_session \<Rightarrow> chat_session" where
  "replay [] s = s"
| "replay (msg # msgs) s = replay msgs (session_deliver msg s)"

definition room_join :: "nat \<Rightarrow> world \<Rightarrow> world" where
  "room_join participant w =
     (let w1 = w\<lparr>room := (room w)\<lparr>participants := insert participant (participants (room w))\<rparr>\<rparr>;
          w2 = upd_session participant (replay (recent_msgs (room w1))) w1;
          w3 = (if recent_msgs (room w2) \<noteq> []
                then upd_session participant (session_deliver history_delimiter) w2
                else w2)
      in room_system_prompt (nickname (sessions w3 participant) @ joined_suffix) participant w3)"

definition room_leave :: "nat \<Rightarrow> world \<Rightarrow> world" where
  "room_leave participant w =
     w\<lparr>room := (room w)\<lparr>participants := participants (room w) - {participant}\<rparr>\<rparr>"

text \<open>The loop \<^verbatim>\<open>while (recent_msgs_.size() > max_recent_msgs) recent_msgs_.pop_front()\<close>.\<close>

function trim_recent :: "string list \<Rightarrow> string list" where
  "trim_recent msgs =
     (if length msgs > max_recent_msgs then trim_recent (tl msgs) else msgs)"
  by pat_completeness auto
termination
  by (relation "measure length") (auto simp add: max_recent_msgs_def)

declare trim_recent.simps [simp del]

definition room_deliver :: "string \<Rightarrow> nat \<Rightarrow> world \<Rightarrow> world" where
  "room_deliver msg sender w =
     (let text = nickname (sessions w sender) @ '' says: '' @ msg;
          w1 = w\<lparr>room := (room w)\<lparr>recent_msgs := trim_recent (recent_msgs (room w) @ [text])\<rparr>\<rparr>
      in w1\<lparr>sessions :=
              deliver_to text sender (sorted_list_of_set (participants (room w1))) (sessions w1)\<rparr>)"

text \<open>A run of \<^verbatim>\<open>chat_room::deliver\<close> calls, each a body and its sender, with no join or leave between.\<close>

fun deliver_all :: "(string \<times> nat) list \<Rightarrow> world \<Rightarrow> world" where
  "deliver_all [] w = w"
| "deliver_all ((msg, sender) # rest) w = deliver_all rest (room_deliver msg sender w)"

section \<open>chat_session: the completion handlers\<close>

text \<open>
  The handlers take the error code as a \<^typ>\<open>bool\<close>, true for an error as in
  \<^verbatim>\<open>if (!ec)\<close>, and on success the bytes read.
\<close>

definition handle_read_header :: "bool \<Rightarrow> nat \<Rightarrow> bool \<Rightarrow> string \<Rightarrow> world \<Rightarrow> world" where
  "handle_read_header char_signed self ec bytes w =
     (if \<not> ec then
        (let (ok, m) = decode_header char_signed (recv_header bytes (read_msg (sessions w self)));
             w1 = upd_session self (\<lambda>s. s\<lparr>read_msg := m\<rparr>) w
         in if ok then upd_session self do_read_body w1 else room_leave self w1)
      else room_leave self w)"

definition handle_read_body :: "nat \<Rightarrow> bool \<Rightarrow> string \<Rightarrow> world \<Rightarrow> world" where
  "handle_read_body self ec bytes w =
     (if \<not> ec then
        (let w0 = upd_session self (\<lambda>s. s\<lparr>read_msg := recv_body bytes (read_msg s)\<rparr>) w;
             s = sessions w0 self;
             w1 = (if state s = NOT_AUTHED then
                     room_join self
                       (upd_session self
                          (\<lambda>s. session_deliver auth_ok_text
                                 (s\<lparr>nickname := body (read_msg s), state := AUTHED\<rparr>)) w0)
                   else if state s = AUTHED then room_deliver (body (read_msg s)) self w0
                   else w0)
         in upd_session self do_read_header w1)
      else room_leave self w)"

definition handle_write :: "nat \<Rightarrow> bool \<Rightarrow> world \<Rightarrow> world" where
  "handle_write self ec w =
     (if \<not> ec then upd_session self pop_and_continue w else room_leave self w)"

section \<open>The event loop\<close>

text \<open>
  One event of \<^verbatim>\<open>io_context::run\<close>: a connection accepted, or the completion of a read or
  of a write of the session at an address. A completion is possible only for an operation
  that was issued, a read succeeds with exactly the bytes asked for, and the operation is
  no longer outstanding when its handler runs. An event that cannot happen gives \<open>None\<close>.
\<close>

datatype event = Accept | Read_done nat bool string | Write_done nat bool

definition read_completed :: "chat_session \<Rightarrow> chat_session" where
  "read_completed s = s\<lparr>socket := (socket s)\<lparr>reads_pending := tl (reads_pending (socket s))\<rparr>\<rparr>"

definition write_completed :: "chat_session \<Rightarrow> chat_session" where
  "write_completed s =
     s\<lparr>socket := (socket s)\<lparr>writes_in_flight := writes_in_flight (socket s) - 1\<rparr>\<rparr>"

definition step :: "bool \<Rightarrow> event \<Rightarrow> world \<Rightarrow> world option" where
  "step char_signed e w =
     (case e of
        Accept \<Rightarrow>
          Some (w\<lparr>sessions := (sessions w)(next_session w := start (room_name (room w)) new_session),
                  next_session := Suc (next_session w)\<rparr>)
      | Read_done self ec bytes \<Rightarrow>
          (case reads_pending (socket (sessions w self)) of
             [] \<Rightarrow> None
           | Read_header # _ \<Rightarrow>
               if \<not> ec \<and> length bytes \<noteq> header_length then None
               else Some (handle_read_header char_signed self ec bytes
                            (upd_session self read_completed w))
           | Read_body # _ \<Rightarrow>
               if \<not> ec \<and> length bytes \<noteq> unat (body_length (read_msg (sessions w self))) then None
               else Some (handle_read_body self ec bytes (upd_session self read_completed w)))
      | Write_done self ec \<Rightarrow>
          if writes_in_flight (socket (sessions w self)) = 0 then None
          else Some (handle_write self ec (upd_session self write_completed w)))"

fun run :: "bool \<Rightarrow> event list \<Rightarrow> world \<Rightarrow> world option" where
  "run char_signed [] w = Some w"
| "run char_signed (e # es) w =
     (case step char_signed e w of None \<Rightarrow> None | Some w' \<Rightarrow> run char_signed es w')"

text \<open>The server after \<^verbatim>\<open>chat_server\<close>'s constructor: the room named, nobody connected.\<close>

definition initial_world :: world where
  "initial_world =
     \<lparr>room = \<lparr>room_name = ''10001'', participants = {}, recent_msgs = []\<rparr>,
      sessions = (\<lambda>_. new_session), next_session = 0\<rparr>"

text \<open>
  The write side of one session alone: calls of \<^verbatim>\<open>deliver\<close> and completions of its
  writes, in any interleaving. \<open>deliveries\<close> lists the texts delivered, in call order.
\<close>

datatype write_event = Deliver string | Write_completed bool

definition write_step :: "write_event \<Rightarrow> chat_session \<Rightarrow> chat_session option" where
  "write_step e s =
     (case e of
        Deliver msg \<Rightarrow> Some (session_deliver msg s)
      | Write_completed ec \<Rightarrow>
          if writes_in_flight (socket s) = 0 then None
          else Some (if \<not> ec then pop_and_continue (write_completed s) else write_completed s))"

fun write_run :: "write_event list \<Rightarrow> chat_session \<Rightarrow> chat_session option" where
  "write_run [] s = Some s"
| "write_run (e # es) s = (case write_step e s of None \<Rightarrow> None | Some s' \<Rightarrow> write_run es s')"

fun deliveries :: "write_event list \<Rightarrow> string list" where
  "deliveries [] = []"
| "deliveries (Deliver msg # es) = msg # deliveries es"
| "deliveries (Write_completed ec # es) = deliveries es"

text \<open>
  The invariant of the write side, for the texts \<open>ds\<close> delivered so far and the frames
  \<open>w0\<close> on the wire at the start: the frames of \<open>ds\<close> are those already popped followed
  by those of the queue; the wire holds the popped frames and, when the queue is not
  empty, the frame at its head; a write is in flight only then, and at most one.
\<close>

definition write_inv :: "string list \<Rightarrow> string list \<Rightarrow> chat_session \<Rightarrow> bool" where
  "write_inv w0 ds s \<longleftrightarrow>
     (\<exists>popped. map (frame \<circ> chat_message_of) ds = popped @ map frame (write_msgs s) \<and>
        (case write_msgs s of
           [] \<Rightarrow> wire (socket s) = w0 @ popped \<and> writes_in_flight (socket s) = 0
         | m # _ \<Rightarrow> wire (socket s) = w0 @ popped @ [frame m] \<and> writes_in_flight (socket s) \<le> 1))"

text \<open>
  A world given by the members and the history of its room, every session freshly
  constructed: the concrete input of the worked examples below.
\<close>

definition world_with :: "nat set \<Rightarrow> string list \<Rightarrow> world" where
  "world_with members history =
     \<lparr>room = \<lparr>room_name = ''10001'', participants = members, recent_msgs = history\<rparr>,
      sessions = (\<lambda>_. new_session), next_session = 8\<rparr>"

section \<open>Frame codec: lemmas\<close>

lemma byte_char_of: "(of_char (char_of (n::nat)) :: 8 word) = of_nat n"
proof -
  have "(of_char (char_of n) :: 8 word) = of_nat (of_char (char_of n))"
    by (simp only: of_nat_of_char)
  also have "\<dots> = of_nat (n mod 256)" by simp
  also have "\<dots> = of_nat n"
    by (simp add: word_of_nat_eq_iff take_bit_eq_mod)
  finally show ?thesis .
qed

lemma replicate4: "replicate 4 c = [c, c, c, c]"
  by (simp add: numeral_eq_Suc)

text \<open>What the constructor builds, for a string that fits and for one that does not.\<close>

lemma chat_message_of_short:
  assumes "length msg \<le> 512"
  shows "chat_message_of msg =
    \<lparr>data = [size_t_to_char (drop_bit 24 (of_nat (length msg)) AND 0xFF),
             size_t_to_char (drop_bit 16 (of_nat (length msg)) AND 0xFF),
             size_t_to_char (drop_bit 8 (of_nat (length msg)) AND 0xFF),
             size_t_to_char (of_nat (length msg) AND 0xFF)] @ msg @ replicate (512 - length msg) (CHR 0x00),
      body_length = of_nat (length msg)\<rparr>"
proof -
  have u: "unat (of_nat (length msg) :: size_t) = length msg"
    using assms by (simp add: unat_of_nat)
  then have le: "\<not> (of_nat (length msg) :: size_t) > 512"
    using assms by (simp add: word_less_nat_alt)
  show ?thesis
    using assms le u
    by (simp add: chat_message_of_def Let_def max_body_length_def header_length_def memcpy_def
        encode_header_def replicate4)
qed

lemma chat_message_of_long:
  assumes "512 < length msg" and "length msg < 2 ^ 64"
  shows "chat_message_of msg =
    \<lparr>data = map char_of [0, 0, 2, 0 :: nat] @ take 512 msg, body_length = 512\<rparr>"
proof -
  have u: "unat (of_nat (length msg) :: size_t) = length msg"
    using assms by (simp add: unat_of_nat)
  then have gt: "(of_nat (length msg) :: size_t) > 512"
    using assms by (simp add: word_less_nat_alt)
  show ?thesis
    using assms gt
    by (simp add: chat_message_of_def Let_def max_body_length_def header_length_def memcpy_def
        encode_header_def size_t_to_char_def replicate4)
qed



text \<open>The array \<^verbatim>\<open>data_\<close> keeps its 516 elements.\<close>

lemma length_data_chat_message_of:
  assumes "length msg < 2 ^ 64"
  shows "length (data (chat_message_of msg)) = 516"
proof (cases "length msg \<le> 512")
  case True
  then show ?thesis by (simp add: chat_message_of_short)
next
  case False
  with assms show ?thesis by (simp add: chat_message_of_long)
qed

lemma length_data_recv:
  "length (data chat_message_default) = 516"
  "length bytes = 4 \<Longrightarrow> length (data m) = 516 \<Longrightarrow> length (data (recv_header bytes m)) = 516"
  "length (data (snd (decode_header char_signed m))) = length (data m)"
  by (simp_all add: chat_message_default_def recv_header_def memcpy_def header_length_def
      max_body_length_def decode_header_def Let_def)

subsection \<open>Joining four bytes\<close>

lemma and_255: "(x::size_t) AND 0xFF = take_bit 8 x"
proof -
  have "(0xFF :: size_t) = mask 8" by (simp add: mask_eq_exp_minus_1)
  then show ?thesis by (simp only: take_bit_eq_mask)
qed

lemma unat_byte_of_char: "unat (of_char c :: 8 word) = of_char c"
proof -
  have "unat (of_char c :: 8 word) = unat (of_nat (of_char c) :: 8 word)"
    by (simp only: of_nat_of_char)
  also have "\<dots> = of_char c mod 256" by (simp add: unat_of_nat)
  finally show ?thesis by simp
qed

lemma unat_join:
  fixes a b c d :: "8 word"
  shows "unat (push_bit 24 (ucast a :: cint) OR push_bit 16 (ucast b) OR push_bit 8 (ucast c) OR ucast d)
         = unat a * 2 ^ 24 + unat b * 2 ^ 16 + unat c * 2 ^ 8 + unat d"
proof -
  let ?pa = "push_bit 24 (ucast a :: cint)" and ?pb = "push_bit 16 (ucast b :: cint)"
  and ?pc = "push_bit 8 (ucast c :: cint)" and ?pd = "ucast d :: cint"
  have d1: "?pc AND ?pd = 0"
    by (rule bit_word_eqI) (auto simp add: bit_simps dest: bit_imp_le_length)
  have d2: "?pb AND (?pc OR ?pd) = 0"
    by (rule bit_word_eqI) (auto simp add: bit_simps dest: bit_imp_le_length)
  have d3: "?pa AND (?pb OR ?pc OR ?pd) = 0"
    by (rule bit_word_eqI) (auto simp add: bit_simps dest: bit_imp_le_length)
  have "?pa OR ?pb OR ?pc OR ?pd = ?pa + (?pb + (?pc + ?pd))"
    using d1 d2 d3 by (simp only: disjunctive_add_eq_or)
  also have "\<dots> = word_of_nat (unat a * 2 ^ 24 + unat b * 2 ^ 16 + unat c * 2 ^ 8 + unat d)"
    by (simp add: push_bit_eq_mult)
  finally have eq: "word_of_nat (unat a * 2 ^ 24 + unat b * 2 ^ 16 + unat c * 2 ^ 8 + unat d)
      = ?pa OR ?pb OR ?pc OR ?pd" by simp
  have "unat a < 256" "unat b < 256" "unat c < 256" "unat d < 256"
    using unsigned_less [of a, where ?'a = nat] unsigned_less [of b, where ?'a = nat]
      unsigned_less [of c, where ?'a = nat] unsigned_less [of d, where ?'a = nat]
    by simp_all
  then have "unat a * 2 ^ 24 + unat b * 2 ^ 16 + unat c * 2 ^ 8 + unat d < 2 ^ LENGTH(32)"
    by simp
  from of_nat_inverse [OF eq this] show ?thesis .
qed

subsection \<open>Sign extension\<close>

lemma high_bit_gt_512:
  fixes v :: size_t
  assumes "bit v k" and "10 \<le> k"
  shows "v > 512"
proof (rule ccontr)
  assume "\<not> v > 512"
  then have "v \<le> 512" by simp
  also have "(512 :: size_t) < 2 ^ 10" by simp
  finally have tb: "take_bit 10 v = v"
    by (simp only: take_bit_eq_mask less_mask_eq)
  have "\<not> bit (take_bit 10 v) k"
    using assms(2) by (simp add: bit_take_bit_iff)
  then have "\<not> bit v k" by (simp add: tb)
  with assms(1) show False by simp
qed

lemma high_bit_gt_512_cint:
  fixes v :: cint
  assumes "bit v k" and "10 \<le> k"
  shows "v > 512"
proof (rule ccontr)
  assume "\<not> v > 512"
  then have "v \<le> 512" by simp
  also have "(512 :: cint) < 2 ^ 10" by simp
  finally have tb: "take_bit 10 v = v"
    by (simp only: take_bit_eq_mask less_mask_eq)
  have "\<not> bit (take_bit 10 v) k"
    using assms(2) by (simp add: bit_take_bit_iff)
  then have "\<not> bit v k" by (simp add: tb)
  with assms(1) show False by simp
qed

lemma scast_cint_nonneg:
  fixes r :: cint
  assumes "\<not> bit r 31"
  shows "(scast r :: size_t) = ucast r"
proof (rule bit_word_eqI)
  fix k :: nat
  assume "k < LENGTH(64)"
  show "bit (scast r :: size_t) k = bit (ucast r :: size_t) k"
  proof (cases "k < 31")
    case True
    then show ?thesis by (simp add: bit_simps)
  next
    case False
    have "k < 32" if "bit r k" using bit_imp_le_length [OF that] by simp
    with False assms have "\<not> bit r k"
      by (cases "k = 31") fastforce+
    with False assms show ?thesis by (simp add: bit_simps min_def)
  qed
qed

lemma scast_cint_neg:
  fixes r :: cint
  assumes "bit r 31"
  shows "(scast r :: size_t) > 512"
proof -
  from assms have "bit (scast r :: size_t) 63" by (simp add: bit_simps)
  then show ?thesis by (rule high_bit_gt_512) simp
qed

lemma scast_byte_nonneg:
  fixes a :: "8 word"
  assumes "\<not> bit a 7"
  shows "(scast a :: cint) = ucast a"
proof (rule bit_word_eqI)
  fix k :: nat
  assume "k < LENGTH(32)"
  show "bit (scast a :: cint) k = bit (ucast a :: cint) k"
  proof (cases "k < 7")
    case True
    then show ?thesis by (simp add: bit_simps)
  next
    case False
    have "k < 8" if "bit a k" using bit_imp_le_length [OF that] by simp
    with False assms have "\<not> bit a k"
      by (cases "k = 7") fastforce+
    with False assms show ?thesis by (simp add: bit_simps min_def)
  qed
qed

lemma signed_join_neg:
  fixes a b c d :: "8 word"
  assumes "bit a 7 \<or> bit b 7 \<or> bit c 7 \<or> bit d 7"
  shows "bit (push_bit 24 (scast a :: cint) OR push_bit 16 (scast b) OR push_bit 8 (scast c) OR scast d) 31"
  using assms by (simp add: bit_simps)

lemma decode_header_cons:
  assumes "data m = a # b # c # d # r"
  shows "decode_header sg m =
    (if int_to_size_t (header_int sg a b c d) > 512 then (False, m\<lparr>body_length := 0\<rparr>)
     else (True, m\<lparr>body_length := int_to_size_t (header_int sg a b c d)\<rparr>))"
  using assms by (simp add: decode_header_def Let_def max_body_length_def)

lemma be_value_cons: "be_value (a # b # c # d # r) = of_char a * 2 ^ 24 + of_char b * 2 ^ 16 + of_char c * 2 ^ 8 + of_char d"
  by (simp add: be_value_def)

lemma unat_header_int_unsigned:
  "unat (header_int False a b c d) = be_value (a # b # c # d # r)"
  by (simp only: char_to_int_def if_False unat_join unat_byte_of_char be_value_cons)

lemma bit7_byte: "bit (w :: 8 word) 7 \<longleftrightarrow> 128 \<le> unat w"
proof
  assume b: "bit w 7"
  show "128 \<le> unat w"
  proof (rule ccontr)
    assume "\<not> 128 \<le> unat w"
    then have "w < 2 ^ 7" by (simp add: word_less_nat_alt)
    then have tb: "take_bit 7 w = w"
      by (simp only: take_bit_eq_mask less_mask_eq)
    have "\<not> bit (take_bit 7 w) 7" by (simp add: bit_take_bit_iff)
    then have "\<not> bit w 7" by (simp add: tb)
    with b show False by simp
  qed
next
  assume ge: "128 \<le> unat w"
  show "bit w 7"
  proof (rule ccontr)
    assume nb: "\<not> bit w 7"
    have "take_bit 7 w = w"
    proof (rule bit_word_eqI)
      fix k :: nat
      assume "k < LENGTH(8)"
      then have "k < 7 \<or> k = 7" by fastforce
      with nb show "bit (take_bit 7 w) k = bit w k"
        by (auto simp add: bit_take_bit_iff)
    qed
    then have "w AND mask 7 = w" by (simp only: take_bit_eq_mask)
    moreover have "w AND mask 7 < 2 ^ 7"
      by (rule and_mask_less_size) (simp add: word_size)
    ultimately have "w < 2 ^ 7" by simp
    then have "unat w < 128" by (simp add: word_less_nat_alt)
    with ge show False by simp
  qed
qed

lemma unat_ucast_cint: 
  fixes J :: cint
  shows "unat (ucast J :: size_t) = unat J"
proof -
  have "unat J < 2 ^ 32" using unsigned_less [of J, where ?'a = nat] by simp
  then have "unat J < 2 ^ 64" by simp
  then show ?thesis by (simp add: unsigned_ucast_eq take_bit_nat_eq_self_iff) 
qed

lemma not_neg_if_small:
  fixes J :: cint
  assumes "unat J \<le> 512"
  shows "\<not> bit J 31"
proof
  assume "bit J 31"
  from high_bit_gt_512_cint [OF this] have "512 < J" by simp
  then have "512 < unat J" by (simp add: word_less_nat_alt)
  with assms show False by simp
qed

lemma int_to_size_t_gt_512:
  fixes J :: cint
  shows "int_to_size_t J > 512 \<longleftrightarrow> unat J > 512"
proof (cases "bit J 31")
  case True
  from high_bit_gt_512_cint [OF True] have "512 < J" by simp
  then have "512 < unat J" by (simp add: word_less_nat_alt)
  with scast_cint_neg [OF True] show ?thesis by (simp add: int_to_size_t_def)
next
  case False
  from scast_cint_nonneg [OF False] unat_ucast_cint [of J] show ?thesis
    by (simp add: int_to_size_t_def word_less_nat_alt)
qed

lemma int_to_size_t_small:
  fixes J :: cint
  assumes "unat J \<le> 512"
  shows "int_to_size_t J = of_nat (unat J)"
  using scast_cint_nonneg [OF not_neg_if_small [OF assms]] by (simp add: int_to_size_t_def)

text \<open>With an unsigned \<^verbatim>\<open>char\<close>, \<open>decode_header\<close> is the big-endian check of the spec.\<close>

lemma decode_header_unsigned:
  assumes "data m = a # b # c # d # r"
  shows "decode_header False m =
    (if be_value (data m) \<le> 512 then (True, m\<lparr>body_length := of_nat (be_value (data m))\<rparr>)
     else (False, m\<lparr>body_length := 0\<rparr>))"
proof -
  have u: "unat (header_int False a b c d) = be_value (data m)"
    by (simp only: assms unat_header_int_unsigned)
  show ?thesis
  proof (cases "be_value (data m) \<le> 512")
    case True
    with u have le: "unat (header_int False a b c d) \<le> 512" by simp
    then have "\<not> int_to_size_t (header_int False a b c d) > 512"
      by (simp add: int_to_size_t_gt_512)
    with True int_to_size_t_small [OF le] u show ?thesis
      by (simp only: decode_header_cons [OF assms] if_False if_True)
  next
    case False
    with u have "unat (header_int False a b c d) > 512" by simp
    then have "int_to_size_t (header_int False a b c d) > 512"
      by (simp only: int_to_size_t_gt_512)
    with False show ?thesis
      by (simp only: decode_header_cons [OF assms] if_False if_True)
  qed
qed

text \<open>
  With a signed \<^verbatim>\<open>char\<close>, a header byte of 128 or more is sign-extended and the header is
  refused, whatever its big-endian value.
\<close>

lemma decode_header_signed:
  assumes "data m = a # b # c # d # r"
  shows "decode_header True m =
    (if be_value (data m) \<le> 512 \<and> (\<forall>x \<in> set [a, b, c, d]. (of_char x :: nat) < 128)
     then (True, m\<lparr>body_length := of_nat (be_value (data m))\<rparr>)
     else (False, m\<lparr>body_length := 0\<rparr>))"
proof (cases "\<forall>x \<in> set [a, b, c, d]. (of_char x :: nat) < 128")
  case True
  have same: "char_to_int True x = char_to_int False x" if "(of_char x :: nat) < 128" for x
  proof -
    from that have "\<not> bit (of_char x :: 8 word) 7"
      by (simp add: bit7_byte unat_byte_of_char)
    from scast_byte_nonneg [OF this] show ?thesis by (simp add: char_to_int_def)
  qed
  from True have "header_int True a b c d = header_int False a b c d"
    by (simp add: same)
  then have "decode_header True m = decode_header False m"
    by (simp only: decode_header_cons [OF assms])
  then have "decode_header True m =
    (if be_value (data m) \<le> 512 then (True, m\<lparr>body_length := of_nat (be_value (data m))\<rparr>)
     else (False, m\<lparr>body_length := 0\<rparr>))"
    by (simp only: decode_header_unsigned [OF assms])
  with True show ?thesis by simp
next
  case False
  then have "bit (of_char a :: 8 word) 7 \<or> bit (of_char b :: 8 word) 7 \<or>
      bit (of_char c :: 8 word) 7 \<or> bit (of_char d :: 8 word) 7"
    by (auto simp add: bit7_byte unat_byte_of_char)
  from signed_join_neg [OF this] have "bit (header_int True a b c d) 31"
    by (simp add: char_to_int_def)
  from scast_cint_neg [OF this] have "int_to_size_t (header_int True a b c d) > 512"
    by (simp add: int_to_size_t_def)
  with False show ?thesis
    by (simp only: decode_header_cons [OF assms] if_True if_False simp_thms)
qed

lemma recv_header_data:
  assumes "length bytes = 4"
  shows "data (recv_header bytes m) = bytes @ drop 4 (data m)"
  using assms by (simp add: recv_header_def memcpy_def header_length_def)

lemma of_char_size_t_to_char:
  "(of_char (size_t_to_char (drop_bit k n AND 0xFF)) :: nat) = unat n div 2 ^ k mod 256"
proof -
  have "(of_char (size_t_to_char (drop_bit k n AND 0xFF)) :: nat) = unat (drop_bit k n AND 0xFF) mod 256"
    by (simp add: size_t_to_char_def)
  also have "unat (drop_bit k n AND 0xFF) = unat (drop_bit k n) mod 256"
    by (simp add: and_255 take_bit_eq_mod unat_mod_distrib)
  also have "unat (drop_bit k n) = unat n div 2 ^ k"
    by (simp only: unat_drop_bit_eq) (simp only: drop_bit_eq_div)
  finally show ?thesis by simp
qed

lemma of_char_size_t_to_char0:
  "(of_char (size_t_to_char (n AND 0xFF)) :: nat) = unat n mod 256"
  using of_char_size_t_to_char [of 0 n] by simp

lemma frame_chat_message_of_short:
  assumes "length msg \<le> 512"
  shows "frame (chat_message_of msg) =
    [size_t_to_char (drop_bit 24 (of_nat (length msg)) AND 0xFF),
     size_t_to_char (drop_bit 16 (of_nat (length msg)) AND 0xFF),
     size_t_to_char (drop_bit 8 (of_nat (length msg)) AND 0xFF),
     size_t_to_char (of_nat (length msg) AND 0xFF)] @ msg"
proof -
  have "unat (4 + of_nat (length msg) :: size_t) = 4 + length msg"
    using assms by (simp add: unat_word_ariths unat_of_nat)
  then show ?thesis
    by (simp add: frame_def length_msg_def header_length_def chat_message_of_short [OF assms]
        take_Cons')
qed


lemma header_of_frame_short:
  assumes "length msg \<le> 512"
  shows "take header_length (frame (chat_message_of msg)) =
    [size_t_to_char (drop_bit 24 (of_nat (length msg)) AND 0xFF),
     size_t_to_char (drop_bit 16 (of_nat (length msg)) AND 0xFF),
     size_t_to_char (drop_bit 8 (of_nat (length msg)) AND 0xFF),
     size_t_to_char (of_nat (length msg) AND 0xFF)]"
  by (simp add: frame_chat_message_of_short [OF assms] header_length_def)

lemma header_bytes_short:
  fixes n :: size_t
  assumes "unat n \<le> 512"
  shows "(of_char (size_t_to_char (drop_bit 24 n AND 0xFF)) :: nat) = 0"
    and "(of_char (size_t_to_char (drop_bit 16 n AND 0xFF)) :: nat) = 0"
    and "(of_char (size_t_to_char (drop_bit 8 n AND 0xFF)) :: nat) = unat n div 256"
    and "(of_char (size_t_to_char (n AND 0xFF)) :: nat) = unat n mod 256"
proof -
  from assms have "unat n div 256 \<le> 2" by simp
  then show "(of_char (size_t_to_char (drop_bit 8 n AND 0xFF)) :: nat) = unat n div 256"
    by (simp add: of_char_size_t_to_char)
  show "(of_char (size_t_to_char (drop_bit 24 n AND 0xFF)) :: nat) = 0"
    using assms by (simp add: of_char_size_t_to_char)
  show "(of_char (size_t_to_char (drop_bit 16 n AND 0xFF)) :: nat) = 0"
    using assms by (simp add: of_char_size_t_to_char)
  show "(of_char (size_t_to_char (n AND 0xFF)) :: nat) = unat n mod 256"
    by (rule of_char_size_t_to_char0)
qed

text \<open>The header that the constructor writes for a payload of at most 512 bytes has the
  payload's length as its big-endian value.\<close>

lemma be_value_header_short:
  assumes "length msg \<le> 512"
  shows "be_value (take header_length (frame (chat_message_of msg)) @ r) = length msg"
proof -
  have u: "unat (of_nat (length msg) :: size_t) = length msg"
    using assms by (simp add: unat_of_nat)
  with assms have le: "unat (of_nat (length msg) :: size_t) \<le> 512" by simp
  show ?thesis
    by (simp add: header_of_frame_short [OF assms] be_value_cons header_bytes_short [OF le] u)
qed

lemma roundtrip_unsigned_char:
  assumes "length payload \<le> 512"
  shows "decode_header False (recv_header (take header_length (frame (chat_message_of payload))) m) =
    (True, (recv_header (take header_length (frame (chat_message_of payload))) m)
             \<lparr>body_length := of_nat (length payload)\<rparr>)"
proof -
  let ?h = "take header_length (frame (chat_message_of payload))"
  have len: "length ?h = 4" by (simp add: header_of_frame_short [OF assms])
  have d: "data (recv_header ?h m) = ?h @ drop 4 (data m)"
    by (rule recv_header_data [OF len])
  then obtain a b c e where d': "data (recv_header ?h m) = a # b # c # e # drop 4 (data m)"
    by (simp add: header_of_frame_short [OF assms])
  have "be_value (data (recv_header ?h m)) = length payload"
    by (simp only: d be_value_header_short [OF assms])
  with assms show ?thesis by (simp add: decode_header_unsigned [OF d'])
qed

lemma roundtrip_signed_char:
  assumes "length payload \<le> 512"
  shows "decode_header True (recv_header (take header_length (frame (chat_message_of payload))) m) =
    (if length payload mod 256 < 128
     then (True, (recv_header (take header_length (frame (chat_message_of payload))) m)
                   \<lparr>body_length := of_nat (length payload)\<rparr>)
     else (False, (recv_header (take header_length (frame (chat_message_of payload))) m)
                   \<lparr>body_length := 0\<rparr>))"
proof -
  let ?h = "take header_length (frame (chat_message_of payload))"
  let ?n = "of_nat (length payload) :: size_t"
  have len: "length ?h = 4" by (simp add: header_of_frame_short [OF assms])
  have d: "data (recv_header ?h m) = ?h @ drop 4 (data m)"
    by (rule recv_header_data [OF len])
  then have d': "data (recv_header ?h m) =
      size_t_to_char (drop_bit 24 ?n AND 0xFF) # size_t_to_char (drop_bit 16 ?n AND 0xFF) #
      size_t_to_char (drop_bit 8 ?n AND 0xFF) # size_t_to_char (?n AND 0xFF) # drop 4 (data m)"
    by (simp add: header_of_frame_short [OF assms])
  have be: "be_value (data (recv_header ?h m)) = length payload"
    by (simp only: d be_value_header_short [OF assms])
  have u: "unat ?n = length payload"
    using assms by (simp add: unat_of_nat)
  with assms have le: "unat ?n \<le> 512" by simp
  from assms have "length payload div 256 < 128" by simp
  with assms be u show ?thesis
    by (simp add: decode_header_signed [OF d'] header_bytes_short [OF le])
qed

lemma decode_header_rejects_oversized:
  assumes "data m = a # b # c # d # r" and "512 < be_value (data m)"
  shows "decode_header char_signed m = (False, m\<lparr>body_length := 0\<rparr>)"
  using assms(2)
  by (cases char_signed)
     (simp_all add: decode_header_signed [OF assms(1)] decode_header_unsigned [OF assms(1)])

lemma decode_header_accepted_value:
  assumes "data m = a # b # c # d # r" and "fst (decode_header char_signed m)"
  shows "be_value (data m) \<le> 512 \<and>
         decode_header char_signed m = (True, m\<lparr>body_length := of_nat (be_value (data m))\<rparr>)"
  using assms(2)
  by (cases char_signed)
     (simp_all add: decode_header_signed [OF assms(1)] decode_header_unsigned [OF assms(1)]
        split: if_splits)

lemma write_msgs_do_write: "write_msgs (do_write s) = write_msgs s"
  by (simp add: do_write_def split: list.split)

lemma write_msgs_session_deliver:
  "write_msgs (session_deliver msg s) = write_msgs s @ [chat_message_of msg]"
  by (simp add: session_deliver_def Let_def write_msgs_do_write)

text \<open>
  Claim C1 (round trip of the header for every payload of 0..512 bytes). With an unsigned
  \<^verbatim>\<open>char\<close> the round trip holds (\<open>roundtrip_unsigned_char\<close>). With a signed
  \<^verbatim>\<open>char\<close> it holds exactly for the lengths whose low byte is below 128
  (\<open>roundtrip_signed_char\<close>): for a payload of 200 bytes the constructor writes the
  header \<open>00 00 00 C8\<close>, and \<^verbatim>\<open>decode_header\<close> on that header returns false and sets the
  length to 0.
\<close>

theorem roundtrip_fails_signed_char_200:
  "length (replicate 200 (CHR ''a'')) \<le> 512 \<and>
   decode_header True
     (recv_header (take header_length (frame (chat_message_of (replicate 200 (CHR ''a'')))))
        chat_message_default) =
   (False,
    (recv_header (take header_length (frame (chat_message_of (replicate 200 (CHR ''a'')))))
        chat_message_default)\<lparr>body_length := 0\<rparr>)"
  using roundtrip_signed_char [of "replicate 200 (CHR ''a'')" chat_message_default]
  by simp

text \<open>
  Claim C2 (a header is refused exactly when its big-endian value exceeds 512). Every header
  above 512 is refused, whatever the signedness of \<^verbatim>\<open>char\<close>
  (\<open>decode_header_rejects_oversized\<close>), and an accepted header yields its big-endian
  value (\<open>decode_header_accepted_value\<close>). With a signed \<^verbatim>\<open>char\<close> the header
  \<open>00 00 00 80\<close>, of value 128, is refused all the same.
\<close>

theorem decode_header_refuses_128_signed_char:
  "be_value (map char_of [0, 0, 0, 128 :: nat]) = 128 \<and>
   decode_header True (recv_header (map char_of [0, 0, 0, 128 :: nat]) chat_message_default) =
   (False, \<lparr>data = map char_of [0, 0, 0, 128 :: nat] @ replicate 512 (CHR 0x00), body_length = 0\<rparr>)"
  by (simp add: be_value_def decode_header_def recv_header_def chat_message_default_def memcpy_def
      header_length_def max_body_length_def Let_def char_to_int_def int_to_size_t_def byte_char_of)

text \<open>
  Claim C10: a \<^verbatim>\<open>chat_message\<close> built from a string of more than 512 bytes has body length
  512, its body is the first 512 bytes of the string and its header declares 512; the
  session's \<^verbatim>\<open>deliver\<close> queues that truncated message, with no refusal, and when the queue
  was empty the frame handed to the socket is the header \<open>00 00 02 00\<close> and those 512 bytes.
\<close>

theorem chat_message_of_truncates:
  assumes "512 < length msg" and "length msg < 2 ^ 64"
  shows "body_length (chat_message_of msg) = 512 \<and>
         body (chat_message_of msg) = take 512 msg \<and>
         frame (chat_message_of msg) = map char_of [0, 0, 2, 0 :: nat] @ take 512 msg \<and>
         be_value (frame (chat_message_of msg)) = 512 \<and>
         write_msgs (session_deliver msg s) = write_msgs s @ [chat_message_of msg] \<and>
         (write_msgs s = [] \<longrightarrow>
            wire (socket (session_deliver msg s)) =
              wire (socket s) @ [map char_of [0, 0, 2, 0 :: nat] @ take 512 msg])"
proof -
  have bl: "body_length (chat_message_of msg) = 512"
    by (simp add: chat_message_of_long [OF assms])
  have f: "frame (chat_message_of msg) = map char_of [0, 0, 2, 0 :: nat] @ take 512 msg"
    using assms(1)
    by (simp add: chat_message_of_long [OF assms] frame_def length_msg_def header_length_def)
  have b: "body (chat_message_of msg) = take 512 msg"
    using assms(1) by (simp add: chat_message_of_long [OF assms] body_def header_length_def)
  have be: "be_value (frame (chat_message_of msg)) = 512"
    by (simp add: f be_value_def)
  have wm: "write_msgs (session_deliver msg s) = write_msgs s @ [chat_message_of msg]"
    by (rule write_msgs_session_deliver)
  have wi: "write_msgs s = [] \<longrightarrow>
            wire (socket (session_deliver msg s)) =
              wire (socket s) @ [map char_of [0, 0, 2, 0 :: nat] @ take 512 msg]"
    using f by (simp add: session_deliver_def Let_def do_write_def)
  show ?thesis by (intro conjI bl b f be wm wi)
qed

theorem chat_message_of_truncates_witness:
  "512 < length (replicate 513 (CHR ''x'')) \<and> length (replicate 513 (CHR ''x'')) < 2 ^ 64 \<and>
   body_length (chat_message_of (replicate 513 (CHR ''x''))) = 512 \<and>
   body (chat_message_of (replicate 513 (CHR ''x''))) = replicate 512 (CHR ''x'') \<and>
   frame (chat_message_of (replicate 513 (CHR ''x''))) =
     map char_of [0, 0, 2, 0 :: nat] @ replicate 512 (CHR ''x'') \<and>
   write_msgs new_session = [] \<and>
   wire (socket (session_deliver (replicate 513 (CHR ''x'')) new_session)) =
     [map char_of [0, 0, 2, 0 :: nat] @ replicate 512 (CHR ''x'')]"
proof -
  have h: "512 < length (replicate 513 (CHR ''x''))" "length (replicate 513 (CHR ''x'')) < 2 ^ 64"
    by simp_all
  have e: "write_msgs new_session = []" "wire (socket new_session) = []"
    by (simp_all add: new_session_def)
  from chat_message_of_truncates [OF h, of new_session] e h show ?thesis
    by simp
qed

section \<open>The room: lemmas\<close>

lemma deliver_to_apply:
  assumes "distinct ps"
  shows "deliver_to text excluded ps ss q =
    (if q \<in> set ps \<and> q \<noteq> excluded then session_deliver text (ss q) else ss q)"
  using assms
proof (induction ps arbitrary: ss)
  case Nil
  then show ?case by simp
next
  case (Cons p ps)
  then show ?case by auto
qed

lemma deliver_to_members:
  assumes "finite P"
  shows "deliver_to text excluded (sorted_list_of_set P) ss =
    (\<lambda>q. if q \<in> P \<and> q \<noteq> excluded then session_deliver text (ss q) else ss q)"
  using assms by (auto simp add: deliver_to_apply fun_eq_iff)

lemma nickname_do_write: "nickname (do_write s) = nickname s"
  by (simp add: do_write_def split: list.split)

lemma nickname_session_deliver: "nickname (session_deliver msg s) = nickname s"
  by (simp add: session_deliver_def Let_def nickname_do_write)

lemma nickname_deliver_to:
  "nickname (deliver_to text excluded ps ss q) = nickname (ss q)"
  by (induction ps arbitrary: ss) (simp_all add: nickname_session_deliver)

lemma nickname_room_deliver:
  "nickname (sessions (room_deliver msg sender w) q) = nickname (sessions w q)"
  by (simp add: room_deliver_def Let_def nickname_deliver_to)

lemma room_room_deliver:
  "room (room_deliver msg sender w) =
     (room w)\<lparr>recent_msgs :=
        trim_recent (recent_msgs (room w) @ [nickname (sessions w sender) @ '' says: '' @ msg])\<rparr>"
  by (simp add: room_deliver_def Let_def)

lemma sessions_room_deliver:
  assumes "finite (participants (room w))"
  shows "sessions (room_deliver msg sender w) q =
    (if q \<in> participants (room w) \<and> q \<noteq> sender
     then session_deliver (nickname (sessions w sender) @ '' says: '' @ msg) (sessions w q)
     else sessions w q)"
  using assms by (simp add: room_deliver_def Let_def deliver_to_members)

text \<open>
  Claim C4: after \<^verbatim>\<open>chat_room::deliver(msg, sender)\<close> the sender's session is as before, so
  it got no copy; every other member of the room at the call had \<^verbatim>\<open>deliver\<close> called on it
  exactly once with the formatted text, so its queue is longer by exactly that one message;
  and a session that is not a member is untouched.
\<close>

theorem room_deliver_no_echo:
  assumes "finite (participants (room w))"
  shows "sessions (room_deliver msg sender w) sender = sessions w sender \<and>
    (\<forall>p \<in> participants (room w). p \<noteq> sender \<longrightarrow>
       sessions (room_deliver msg sender w) p =
         session_deliver (nickname (sessions w sender) @ '' says: '' @ msg) (sessions w p) \<and>
       write_msgs (sessions (room_deliver msg sender w) p) =
         write_msgs (sessions w p) @
           [chat_message_of (nickname (sessions w sender) @ '' says: '' @ msg)]) \<and>
    (\<forall>p. p \<notin> participants (room w) \<longrightarrow> sessions (room_deliver msg sender w) p = sessions w p)"
  by (simp add: sessions_room_deliver [OF assms] write_msgs_session_deliver)

theorem room_deliver_no_echo_witness:
  "finite (participants (room (world_with {2, 3} []))) \<and>
   sessions (room_deliver ''hello'' 2 (world_with {2, 3} [])) 2 = new_session \<and>
   write_msgs (sessions (room_deliver ''hello'' 2 (world_with {2, 3} [])) 3) =
     [chat_message_of '' says: hello''] \<and>
   sessions (room_deliver ''hello'' 2 (world_with {2, 3} [])) 5 = new_session"
proof -
  have fin: "finite (participants (room (world_with {2, 3} [])))"
    by (simp add: world_with_def)
  note t = room_deliver_no_echo [OF fin, of "''hello''" 2]
  have m: "participants (room (world_with {2, 3} [])) = {2, 3}"
    and s: "\<And>p. sessions (world_with {2, 3} []) p = new_session"
    by (simp_all add: world_with_def)
  have n: "nickname new_session = []" "write_msgs new_session = []"
    by (simp_all add: new_session_def)
  have "sessions (room_deliver ''hello'' 2 (world_with {2, 3} [])) 2 = new_session"
    using t [THEN conjunct1] by (simp only: s)
  moreover have "write_msgs (sessions (room_deliver ''hello'' 2 (world_with {2, 3} [])) 3) =
     [chat_message_of '' says: hello'']"
    using t [THEN conjunct2, THEN conjunct1, rule_format, of 3]
    by (simp add: m s n write_msgs_session_deliver)
  moreover have "sessions (room_deliver ''hello'' 2 (world_with {2, 3} [])) 5 = new_session"
    using t [THEN conjunct2, THEN conjunct2, rule_format, of 5] by (simp add: m s)
  ultimately show ?thesis using fin by blast
qed

lemma world_with_simps:
  "participants (room (world_with members history)) = members"
  "recent_msgs (room (world_with members history)) = history"
  "sessions (world_with members history) p = new_session"
  by (simp_all add: world_with_def)

lemma new_session_simps:
  "nickname new_session = []" "write_msgs new_session = []"
  "state new_session = NOT_AUTHED"
  "reads_pending (socket new_session) = []" "writes_in_flight (socket new_session) = 0"
  "wire (socket new_session) = []"
  by (simp_all add: new_session_def)

text \<open>
  Claim C9: \<^verbatim>\<open>system_prompt(msg, blocked_user)\<close> calls \<^verbatim>\<open>deliver\<close> with
  \<open>''system prompt: '' @ msg\<close> once on every member other than \<open>blocked_user\<close> and on
  no other session, and leaves the room (its name, members and history) as it was.
\<close>

theorem room_system_prompt_frame:
  assumes "finite (participants (room w))"
  shows "room (room_system_prompt msg blocked_user w) = room w \<and>
    (\<forall>p. sessions (room_system_prompt msg blocked_user w) p =
       (if p \<in> participants (room w) \<and> p \<noteq> blocked_user
        then session_deliver (''system prompt: '' @ msg) (sessions w p)
        else sessions w p)) \<and>
    (\<forall>p \<in> participants (room w). p \<noteq> blocked_user \<longrightarrow>
       write_msgs (sessions (room_system_prompt msg blocked_user w) p) =
         write_msgs (sessions w p) @ [chat_message_of (''system prompt: '' @ msg)])"
  using assms
  by (simp add: room_system_prompt_def Let_def deliver_to_members write_msgs_session_deliver)

theorem room_system_prompt_frame_witness:
  "finite (participants (room (world_with {2, 3} [''old'']))) \<and>
   room (room_system_prompt ''hi'' 2 (world_with {2, 3} [''old''])) =
     room (world_with {2, 3} [''old'']) \<and>
   sessions (room_system_prompt ''hi'' 2 (world_with {2, 3} [''old''])) 2 = new_session \<and>
   write_msgs (sessions (room_system_prompt ''hi'' 2 (world_with {2, 3} [''old''])) 3) =
     [chat_message_of ''system prompt: hi'']"
proof -
  have fin: "finite (participants (room (world_with {2, 3} [''old''])))"
    by (simp add: world_with_simps)
  note t = room_system_prompt_frame [OF fin, of "''hi''" 2]
  have "sessions (room_system_prompt ''hi'' 2 (world_with {2, 3} [''old''])) 2 = new_session"
    using t [THEN conjunct2, THEN conjunct1, rule_format, of 2] by (simp add: world_with_simps)
  moreover have "write_msgs (sessions (room_system_prompt ''hi'' 2 (world_with {2, 3} [''old''])) 3) =
     [chat_message_of ''system prompt: hi'']"
    using t [THEN conjunct2, THEN conjunct2, rule_format, of 3]
    by (simp add: world_with_simps new_session_simps)
  ultimately show ?thesis using fin t [THEN conjunct1] by blast
qed

text \<open>
  Claim C8: \<^verbatim>\<open>leave\<close> of a session that is not a member changes nothing; \<^verbatim>\<open>leave\<close> has no
  failing path (it is a total function with no error result); and two \<^verbatim>\<open>leave\<close> calls for
  a member give the state of one call, with the member removed and the count down by one.
\<close>

theorem room_leave_idempotent:
  "(q \<notin> participants (room w) \<longrightarrow> room_leave q w = w) \<and>
   room_leave p (room_leave p w) = room_leave p w \<and>
   participants (room (room_leave p (room_leave p w))) = participants (room w) - {p} \<and>
   (finite (participants (room w)) \<and> p \<in> participants (room w) \<longrightarrow>
      card (participants (room (room_leave p (room_leave p w)))) =
        card (participants (room w)) - 1)"
  by (simp add: room_leave_def)

theorem room_leave_idempotent_witness:
  "5 \<notin> participants (room (world_with {2, 3} [])) \<and>
   room_leave 5 (world_with {2, 3} []) = world_with {2, 3} [] \<and>
   finite (participants (room (world_with {2, 3} []))) \<and>
   2 \<in> participants (room (world_with {2, 3} [])) \<and>
   participants (room (room_leave 2 (room_leave 2 (world_with {2, 3} [])))) = {3} \<and>
   card (participants (room (room_leave 2 (room_leave 2 (world_with {2, 3} []))))) = 1"
proof -
  note t = room_leave_idempotent [of 5 "world_with {2, 3} []" 2]
  have h: "5 \<notin> participants (room (world_with {2, 3} []))"
    "finite (participants (room (world_with {2, 3} [])))"
    "2 \<in> participants (room (world_with {2, 3} []))"
    by (simp_all add: world_with_simps)
  have "room_leave 5 (world_with {2, 3} []) = world_with {2, 3} []"
    using t [THEN conjunct1] h(1) by blast
  moreover have "participants (room (room_leave 2 (room_leave 2 (world_with {2, 3} [])))) = {3}"
    using t [THEN conjunct2, THEN conjunct2, THEN conjunct1] by (simp add: world_with_simps)
  moreover have "card (participants (room (room_leave 2 (room_leave 2 (world_with {2, 3} []))))) = 1"
    using t [THEN conjunct2, THEN conjunct2, THEN conjunct2] h(2,3)
    by (simp add: world_with_simps)
  ultimately show ?thesis using h by blast
qed

lemma trim_recent_eq: "trim_recent msgs = drop (length msgs - max_recent_msgs) msgs"
proof (induction msgs rule: trim_recent.induct)
  case (1 msgs)
  show ?case
  proof (cases "length msgs > max_recent_msgs")
    case True
    then have "msgs \<noteq> []" by auto
    then obtain x xs where m: "msgs = x # xs" by (cases msgs) auto
    from True "1.IH" have "trim_recent msgs = drop (length (tl msgs) - max_recent_msgs) (tl msgs)"
      by (subst trim_recent.simps) simp
    also have "\<dots> = drop (length msgs - max_recent_msgs) msgs"
      using True by (simp add: m Suc_diff_le drop_Cons')
    finally show ?thesis .
  next
    case False
    then show ?thesis by (subst trim_recent.simps) simp
  qed
qed

lemma length_trim_recent: "length (trim_recent msgs) \<le> max_recent_msgs"
  by (simp add: trim_recent_eq)

text \<open>The formatted text of a delivery, from the sender's nickname in the world \<open>w\<close>.\<close>

lemma recent_msgs_room_deliver:
  "recent_msgs (room (room_deliver msg sender w)) =
     trim_recent (recent_msgs (room w) @ [nickname (sessions w sender) @ '' says: '' @ msg])"
  by (simp add: room_room_deliver)

lemma recent_msgs_deliver_all:
  assumes "length (recent_msgs (room w)) \<le> max_recent_msgs"
  shows "recent_msgs (room (deliver_all ms w)) =
    drop (length (recent_msgs (room w)) + length ms - max_recent_msgs)
      (recent_msgs (room w) @
         map (\<lambda>(msg, sender). nickname (sessions w sender) @ '' says: '' @ msg) ms)"
  using assms
proof (induction ms arbitrary: w)
  case Nil
  then show ?case by simp
next
  case (Cons m ms)
  obtain msg sender where m: "m = (msg, sender)" by (cases m)
  let ?w1 = "room_deliver msg sender w"
  let ?t = "nickname (sessions w sender) @ '' says: '' @ msg"
  let ?f = "\<lambda>w (msg, sender). nickname (sessions w sender) @ '' says: '' @ msg"
  have r1: "recent_msgs (room ?w1) =
      drop (length (recent_msgs (room w)) + 1 - max_recent_msgs) (recent_msgs (room w) @ [?t])"
    by (simp add: recent_msgs_room_deliver trim_recent_eq)
  have l1: "length (recent_msgs (room ?w1)) \<le> max_recent_msgs"
    by (simp add: recent_msgs_room_deliver length_trim_recent)
  have same: "map (?f ?w1) ms = map (?f w) ms"
    by (simp add: nickname_room_deliver)
  have "recent_msgs (room (deliver_all (m # ms) w)) = recent_msgs (room (deliver_all ms ?w1))"
    by (simp add: m)
  also have "\<dots> = drop (length (recent_msgs (room ?w1)) + length ms - max_recent_msgs)
      (recent_msgs (room ?w1) @ map (?f w) ms)"
    using Cons.IH [OF l1] by (simp only: same)
  also have "\<dots> = drop (length (recent_msgs (room w)) + length (m # ms) - max_recent_msgs)
      (recent_msgs (room w) @ map (?f w) (m # ms))"
  proof -
    let ?H = "recent_msgs (room w)" and ?F = "map (?f w) ms"
    let ?k = "length ?H + 1 - max_recent_msgs"
    have app: "recent_msgs (room ?w1) @ ?F = drop ?k (?H @ ?t # ?F)"
      using Cons.prems by (simp add: r1 max_recent_msgs_def)
    have len: "length (recent_msgs (room ?w1)) = length ?H + 1 - ?k"
      by (simp add: r1)
    have "drop (length (recent_msgs (room ?w1)) + length ms - max_recent_msgs)
        (recent_msgs (room ?w1) @ ?F) =
      drop (length ?H + 1 - ?k + length ms - max_recent_msgs + ?k) (?H @ ?t # ?F)"
      by (simp only: app len drop_drop)
    also have "length ?H + 1 - ?k + length ms - max_recent_msgs + ?k =
        length ?H + length (m # ms) - max_recent_msgs"
      using Cons.prems by (simp add: max_recent_msgs_def)
    finally show ?thesis by (simp add: m)
  qed
  finally show ?case .
qed

lemma recent_msgs_deliver_101:
  assumes "length ms = 101"
  shows "recent_msgs (room (deliver_all ms w)) =
    map (\<lambda>(msg, sender). nickname (sessions w sender) @ '' says: '' @ msg) (tl ms)"
proof -
  from assms obtain m ms' where ms: "ms = m # ms'" and l: "length ms' = 100"
    by (cases ms) auto
  obtain msg sender where m: "m = (msg, sender)" by (cases m)
  let ?w1 = "room_deliver msg sender w"
  let ?f = "\<lambda>w (msg, sender). nickname (sessions w sender) @ '' says: '' @ msg"
  have l1: "length (recent_msgs (room ?w1)) \<le> max_recent_msgs"
    by (simp add: recent_msgs_room_deliver length_trim_recent)
  have same: "map (?f ?w1) ms' = map (?f w) ms'"
    by (simp add: nickname_room_deliver)
  have "recent_msgs (room (deliver_all ms w)) = recent_msgs (room (deliver_all ms' ?w1))"
    by (simp add: ms m)
  also have "\<dots> = drop (length (recent_msgs (room ?w1)) + length ms' - max_recent_msgs)
      (recent_msgs (room ?w1) @ map (?f w) ms')"
    using recent_msgs_deliver_all [OF l1, of ms'] by (simp only: same)
  also have "\<dots> = map (?f w) ms'"
    by (simp add: l max_recent_msgs_def)
  finally show ?thesis by (simp add: ms)
qed

text \<open>
  Claim C5: \<^verbatim>\<open>chat_room::deliver\<close> appends \<open>nickname @ '' says: '' @ msg\<close> to the history
  and drops entries from the front until at most 100 remain, so the history is the last 100
  entries of the old history followed by the new text; and after 101 deliveries, with no join
  or leave between, the history is the formatted texts of the last 100 of them, in order.
\<close>

theorem room_deliver_bounded_history:
  "recent_msgs (room (room_deliver msg sender w)) =
     drop (length (recent_msgs (room w)) + 1 - 100)
       (recent_msgs (room w) @ [nickname (sessions w sender) @ '' says: '' @ msg]) \<and>
   length (recent_msgs (room (room_deliver msg sender w))) \<le> 100 \<and>
   (length ms = 101 \<longrightarrow>
      recent_msgs (room (deliver_all ms w)) =
        map (\<lambda>(msg, sender). nickname (sessions w sender) @ '' says: '' @ msg) (tl ms))"
  using length_trim_recent [of "recent_msgs (room w) @ [nickname (sessions w sender) @ '' says: '' @ msg]"]
  by (simp add: recent_msgs_room_deliver trim_recent_eq max_recent_msgs_def recent_msgs_deliver_101)

theorem room_deliver_bounded_history_witness:
  "length (map (\<lambda>n. (replicate n (CHR ''a''), 2 :: nat)) [0..<101]) = 101 \<and>
   recent_msgs (room (deliver_all (map (\<lambda>n. (replicate n (CHR ''a''), 2)) [0..<101])
       (world_with {2, 3} []))) =
     map (\<lambda>n. '' says: '' @ replicate n (CHR ''a'')) [1..<101]"
proof -
  have l: "length (map (\<lambda>n. (replicate n (CHR ''a''), 2 :: nat)) [0..<101]) = 101"
    by simp
  have tl: "tl (map (\<lambda>n. (replicate n (CHR ''a''), 2 :: nat)) [0..<101]) =
      map (\<lambda>n. (replicate n (CHR ''a''), 2)) [1..<101]"
    by (simp add: upt_conv_Cons)
  from room_deliver_bounded_history [of "''x''" 2 "world_with {2, 3} []"
      "map (\<lambda>n. (replicate n (CHR ''a''), 2)) [0..<101]", THEN conjunct2, THEN conjunct2] l
  have "recent_msgs (room (deliver_all (map (\<lambda>n. (replicate n (CHR ''a''), 2)) [0..<101])
       (world_with {2, 3} []))) =
     map (\<lambda>(msg, sender). nickname (sessions (world_with {2, 3} []) sender) @ '' says: '' @ msg)
       (tl (map (\<lambda>n. (replicate n (CHR ''a''), 2)) [0..<101]))"
    by blast
  then show ?thesis
    using l by (simp only: tl) (simp add: world_with_simps new_session_simps)
qed

lemma write_msgs_replay:
  "write_msgs (replay msgs s) = write_msgs s @ map chat_message_of msgs"
  by (induction msgs arbitrary: s) (simp_all add: write_msgs_session_deliver)

lemma nickname_replay: "nickname (replay msgs s) = nickname s"
  by (induction msgs arbitrary: s) (simp_all add: nickname_session_deliver)

lemma room_room_join:
  "room (room_join p w) = (room w)\<lparr>participants := insert p (participants (room w))\<rparr>"
  by (simp add: room_join_def Let_def upd_session_def room_system_prompt_def)

lemma sessions_room_join:
  assumes "finite (participants (room w))"
  shows "sessions (room_join p w) q =
    (if q = p then
       (if recent_msgs (room w) \<noteq> []
        then session_deliver history_delimiter (replay (recent_msgs (room w)) (sessions w p))
        else replay (recent_msgs (room w)) (sessions w p))
     else if q \<in> participants (room w)
       then session_deliver (''system prompt: '' @ nickname (sessions w p) @ joined_suffix)
              (sessions w q)
       else sessions w q)"
  using assms
  by (simp add: room_join_def Let_def upd_session_def room_system_prompt_def deliver_to_members
      nickname_session_deliver nickname_replay)

text \<open>
  Claim C6: \<^verbatim>\<open>chat_room::join\<close> queues on the joining session the history, oldest first,
  then the delimiter notice exactly when the history is not empty, and nothing else; it
  calls \<^verbatim>\<open>deliver\<close> with the join notice once on every other member and on nobody else;
  the joining session becomes a member; and a later \<^verbatim>\<open>chat_room::deliver\<close> by another
  session puts its text behind the replayed history and the delimiter in the queue.
\<close>

theorem room_join_replay:
  assumes "finite (participants (room w))"
  shows "write_msgs (sessions (room_join p w) p) =
      write_msgs (sessions w p) @ map chat_message_of (recent_msgs (room w)) @
        (if recent_msgs (room w) \<noteq> [] then [chat_message_of history_delimiter] else []) \<and>
    (\<forall>q \<in> participants (room w). q \<noteq> p \<longrightarrow>
       sessions (room_join p w) q =
         session_deliver (''system prompt: '' @ nickname (sessions w p) @ joined_suffix)
           (sessions w q)) \<and>
    (\<forall>q. q \<notin> participants (room w) \<and> q \<noteq> p \<longrightarrow> sessions (room_join p w) q = sessions w q) \<and>
    room (room_join p w) = (room w)\<lparr>participants := insert p (participants (room w))\<rparr> \<and>
    (\<forall>msg sender. sender \<noteq> p \<longrightarrow>
       write_msgs (sessions (room_deliver msg sender (room_join p w)) p) =
         write_msgs (sessions w p) @ map chat_message_of (recent_msgs (room w)) @
           (if recent_msgs (room w) \<noteq> [] then [chat_message_of history_delimiter] else []) @
           [chat_message_of (nickname (sessions (room_join p w) sender) @ '' says: '' @ msg)])"
proof -
  have fin': "finite (participants (room (room_join p w)))"
    using assms by (simp add: room_room_join)
  have a: "write_msgs (sessions (room_join p w) p) =
      write_msgs (sessions w p) @ map chat_message_of (recent_msgs (room w)) @
        (if recent_msgs (room w) \<noteq> [] then [chat_message_of history_delimiter] else [])"
    by (simp add: sessions_room_join [OF assms] write_msgs_session_deliver write_msgs_replay)
  have b: "\<forall>q \<in> participants (room w). q \<noteq> p \<longrightarrow>
       sessions (room_join p w) q =
         session_deliver (''system prompt: '' @ nickname (sessions w p) @ joined_suffix)
           (sessions w q)"
    by (simp add: sessions_room_join [OF assms])
  have c: "\<forall>q. q \<notin> participants (room w) \<and> q \<noteq> p \<longrightarrow> sessions (room_join p w) q = sessions w q"
    by (simp add: sessions_room_join [OF assms])
  have d: "room (room_join p w) = (room w)\<lparr>participants := insert p (participants (room w))\<rparr>"
    by (rule room_room_join)
  have e: "\<forall>msg sender. sender \<noteq> p \<longrightarrow>
       write_msgs (sessions (room_deliver msg sender (room_join p w)) p) =
         write_msgs (sessions w p) @ map chat_message_of (recent_msgs (room w)) @
           (if recent_msgs (room w) \<noteq> [] then [chat_message_of history_delimiter] else []) @
           [chat_message_of (nickname (sessions (room_join p w) sender) @ '' says: '' @ msg)]"
    by (simp add: sessions_room_deliver [OF fin'] room_room_join write_msgs_session_deliver a)
  show ?thesis by (intro conjI a b c d e)
qed

theorem room_join_replay_witness:
  "finite (participants (room (world_with {2, 3} [''m1'', ''m2'']))) \<and>
   write_msgs (sessions (room_join 5 (world_with {2, 3} [''m1'', ''m2''])) 5) =
     [chat_message_of ''m1'', chat_message_of ''m2'', chat_message_of history_delimiter] \<and>
   write_msgs (sessions (room_join 5 (world_with {2, 3} [''m1'', ''m2''])) 3) =
     [chat_message_of (''system prompt: '' @ joined_suffix)] \<and>
   write_msgs (sessions (room_deliver ''hi'' 2 (room_join 5 (world_with {2, 3} [''m1'', ''m2'']))) 5) =
     [chat_message_of ''m1'', chat_message_of ''m2'', chat_message_of history_delimiter,
      chat_message_of '' says: hi''] \<and>
   sessions (room_join 5 (world_with {2, 3} [''m1'', ''m2''])) 7 = new_session \<and>
   participants (room (room_join 5 (world_with {2, 3} [''m1'', ''m2'']))) = {5, 2, 3}"
proof -
  let ?w = "world_with {2, 3} [''m1'', ''m2'']"
  have fin: "finite (participants (room ?w))"
    by (simp add: world_with_simps)
  note t = room_join_replay [OF fin, of 5]
  have a: "write_msgs (sessions (room_join 5 ?w) 5) =
     [chat_message_of ''m1'', chat_message_of ''m2'', chat_message_of history_delimiter]"
    using t [THEN conjunct1] by (simp add: world_with_simps new_session_simps)
  have b: "write_msgs (sessions (room_join 5 ?w) 3) =
     [chat_message_of (''system prompt: '' @ joined_suffix)]"
    using t [THEN conjunct2, THEN conjunct1, rule_format, of 3]
    by (simp add: world_with_simps new_session_simps write_msgs_session_deliver)
  have n: "nickname (sessions (room_join 5 ?w) 2) = []"
    using t [THEN conjunct2, THEN conjunct1, rule_format, of 2]
    by (simp add: world_with_simps new_session_simps nickname_session_deliver)
  have c: "write_msgs (sessions (room_deliver ''hi'' 2 (room_join 5 ?w)) 5) =
     [chat_message_of ''m1'', chat_message_of ''m2'', chat_message_of history_delimiter,
      chat_message_of '' says: hi'']"
    using t [THEN conjunct2, THEN conjunct2, THEN conjunct2, THEN conjunct2, rule_format, of 2 "''hi''"]
    by (simp add: world_with_simps new_session_simps n)
  have d: "sessions (room_join 5 ?w) 7 = new_session"
    using t [THEN conjunct2, THEN conjunct2, THEN conjunct1, rule_format, of 7]
    by (simp add: world_with_simps)
  have e: "participants (room (room_join 5 ?w)) = {5, 2, 3}"
    using t [THEN conjunct2, THEN conjunct2, THEN conjunct2, THEN conjunct1]
    by (simp add: world_with_simps)
  show ?thesis by (intro conjI fin a b c d e)
qed

section \<open>The write loop of a session: lemmas\<close>

lemma write_inv_deliver:
  assumes "write_inv w0 ds s"
  shows "write_inv w0 (ds @ [msg]) (session_deliver msg s)"
proof -
  from assms obtain popped where
    p: "map (frame \<circ> chat_message_of) ds = popped @ map frame (write_msgs s)" and
    c: "(case write_msgs s of
           [] \<Rightarrow> wire (socket s) = w0 @ popped \<and> writes_in_flight (socket s) = 0
         | m # _ \<Rightarrow> wire (socket s) = w0 @ popped @ [frame m] \<and> writes_in_flight (socket s) \<le> 1)"
    by (auto simp add: write_inv_def)
  show ?thesis
  proof (cases "write_msgs s")
    case Nil
    with p c show ?thesis
      by (auto simp add: write_inv_def session_deliver_def Let_def do_write_def)
  next
    case (Cons m ms)
    with p c show ?thesis
      by (auto simp add: write_inv_def session_deliver_def Let_def)
  qed
qed

lemma write_inv_completed:
  assumes "write_inv w0 ds s" and "writes_in_flight (socket s) \<noteq> 0"
  shows "write_inv w0 ds (if \<not> ec then pop_and_continue (write_completed s) else write_completed s)"
proof -
  from assms obtain popped where
    p: "map (frame \<circ> chat_message_of) ds = popped @ map frame (write_msgs s)" and
    c: "(case write_msgs s of
           [] \<Rightarrow> wire (socket s) = w0 @ popped \<and> writes_in_flight (socket s) = 0
         | m # _ \<Rightarrow> wire (socket s) = w0 @ popped @ [frame m] \<and> writes_in_flight (socket s) \<le> 1)"
    by (auto simp add: write_inv_def)
  from c assms(2) obtain m ms where q: "write_msgs s = m # ms"
    by (cases "write_msgs s") auto
  with c assms(2) have w: "wire (socket s) = w0 @ popped @ [frame m]"
    and f: "writes_in_flight (socket s) = 1" by auto
  show ?thesis
  proof (cases ec)
    case True
    with p q w f show ?thesis
      by (auto simp add: write_inv_def write_completed_def)
  next
    case False
    show ?thesis
    proof (cases ms)
      case Nil
      with False p q w f show ?thesis
        by (auto simp add: write_inv_def write_completed_def pop_and_continue_def Let_def
            intro!: exI [of _ "popped @ [frame m]"])
    next
      case (Cons m' ms')
      with False p q w f show ?thesis
        by (auto simp add: write_inv_def write_completed_def pop_and_continue_def Let_def
            do_write_def intro!: exI [of _ "popped @ [frame m]"])
    qed
  qed
qed

lemma write_inv_run:
  assumes "write_run es s0 = Some s" and "write_inv w0 ds s0"
  shows "write_inv w0 (ds @ deliveries es) s"
  using assms
proof (induction es arbitrary: s0 ds)
  case Nil
  then show ?case by simp
next
  case (Cons e es)
  from Cons.prems(1) obtain s1 where st: "write_step e s0 = Some s1"
    and run: "write_run es s1 = Some s"
    by (auto split: option.splits)
  show ?case
  proof (cases e)
    case (Deliver msg)
    with st have "s1 = session_deliver msg s0" by (simp add: write_step_def)
    with Cons.prems(2) have "write_inv w0 (ds @ [msg]) s1"
      by (simp add: write_inv_deliver)
    from Cons.IH [OF run this] Deliver show ?thesis by simp
  next
    case (Write_completed ec)
    with st have nz: "writes_in_flight (socket s0) \<noteq> 0"
      and s1: "s1 = (if \<not> ec then pop_and_continue (write_completed s0) else write_completed s0)"
      by (auto simp add: write_step_def split: if_splits)
    from write_inv_completed [OF Cons.prems(2) nz, of ec] s1 have "write_inv w0 ds s1"
      by simp
    from Cons.IH [OF run this] Write_completed show ?thesis by simp
  qed
qed

lemma write_inv_idle:
  assumes "write_msgs s = []" and "writes_in_flight (socket s) = 0"
  shows "write_inv (wire (socket s)) [] s"
  using assms by (simp add: write_inv_def)

lemma session_deliver_effect:
  "write_msgs (session_deliver msg s) = write_msgs s @ [chat_message_of msg] \<and>
   wire (socket (session_deliver msg s)) =
     (if write_msgs s = [] then wire (socket s) @ [frame (chat_message_of msg)] else wire (socket s)) \<and>
   writes_in_flight (socket (session_deliver msg s)) =
     (if write_msgs s = [] then Suc (writes_in_flight (socket s)) else writes_in_flight (socket s))"
  by (simp add: session_deliver_def Let_def do_write_def)

lemma write_inv_facts:
  assumes "write_inv w0 ds s"
  shows "writes_in_flight (socket s) \<le> 1"
    and "write_msgs s = [] \<Longrightarrow> writes_in_flight (socket s) = 0"
    and "wire (socket s) @ map frame (tl (write_msgs s)) = w0 @ map (frame \<circ> chat_message_of) ds"
  using assms by (cases "write_msgs s"; auto simp add: write_inv_def)+

lemma write_step_issue:
  assumes "write_inv w0 ds s" and "write_step e s = Some s'"
    and "wire (socket s') \<noteq> wire (socket s)"
  shows "writes_in_flight (socket s') = 1 \<and>
    (case e of Deliver msg \<Rightarrow> writes_in_flight (socket s) = 0
     | Write_completed ec \<Rightarrow> \<not> ec \<and> writes_in_flight (socket s) = 1)"
proof (cases e)
  case (Deliver msg)
  with assms(2) have s': "s' = session_deliver msg s" by (simp add: write_step_def)
  with assms(3) have "write_msgs s = []"
    by (auto simp add: session_deliver_effect split: if_splits)
  with write_inv_facts(2) [OF assms(1)] s' Deliver show ?thesis
    by (simp add: session_deliver_effect)
next
  case (Write_completed ec)
  with assms(2) have nz: "writes_in_flight (socket s) \<noteq> 0"
    and s': "s' = (if \<not> ec then pop_and_continue (write_completed s) else write_completed s)"
    by (auto simp add: write_step_def split: if_splits)
  from nz write_inv_facts(1) [OF assms(1)] have one: "writes_in_flight (socket s) = 1" by simp
  from assms(3) s' have ok: "\<not> ec"
    by (auto simp add: write_completed_def split: if_splits)
  with s' assms(3) one have "writes_in_flight (socket s') = 1"
    by (auto simp add: pop_and_continue_def write_completed_def Let_def do_write_def
        split: if_splits list.splits)
  with ok one Write_completed show ?thesis by simp
qed

text \<open>
  Claim C7: \<^verbatim>\<open>chat_session::deliver\<close> appends the message to the queue and calls
  \<^verbatim>\<open>do_write\<close> exactly when the queue was empty before. After any interleaving of
  \<^verbatim>\<open>deliver\<close> calls and write completions on a session that starts with an empty queue and
  no write in flight: at most one write is in flight; the frames handed to the socket,
  followed by the frames still queued behind the head, are the frames of all texts delivered,
  in call order; and a step hands a frame to the socket only with no other write in flight:
  a \<^verbatim>\<open>deliver\<close> call with none in flight, or the successful completion of the one in flight.
\<close>

theorem write_loop_fifo:
  assumes "write_run es s0 = Some s"
    and "write_msgs s0 = []" and "writes_in_flight (socket s0) = 0"
  shows "writes_in_flight (socket s) \<le> 1 \<and>
    wire (socket s) @ map frame (tl (write_msgs s)) =
      wire (socket s0) @ map (frame \<circ> chat_message_of) (deliveries es) \<and>
    (\<forall>e s'. write_step e s = Some s' \<and> wire (socket s') \<noteq> wire (socket s) \<longrightarrow>
       writes_in_flight (socket s') = 1 \<and>
       (case e of Deliver msg \<Rightarrow> writes_in_flight (socket s) = 0
        | Write_completed ec \<Rightarrow> \<not> ec \<and> writes_in_flight (socket s) = 1)) \<and>
    write_msgs (session_deliver msg s) = write_msgs s @ [chat_message_of msg] \<and>
    wire (socket (session_deliver msg s)) =
      (if write_msgs s = [] then wire (socket s) @ [frame (chat_message_of msg)]
       else wire (socket s)) \<and>
    writes_in_flight (socket (session_deliver msg s)) =
      (if write_msgs s = [] then Suc (writes_in_flight (socket s))
       else writes_in_flight (socket s))"
proof -
  have "write_inv (wire (socket s0)) [] s0"
    using assms(2,3) by (rule write_inv_idle)
  from write_inv_run [OF assms(1) this]
  have inv: "write_inv (wire (socket s0)) (deliveries es) s" by simp
  show ?thesis
    using write_inv_facts(1,3) [OF inv] write_step_issue [OF inv] session_deliver_effect [of msg s]
    by blast
qed

theorem write_loop_fifo_witness:
  "write_run [Deliver ''a'', Deliver ''b'', Write_completed False, Deliver ''c'', Write_completed True]
     new_session =
   Some (new_session
     \<lparr>socket := \<lparr>reads_pending = [], writes_in_flight = 0,
                 wire = [frame (chat_message_of ''a''), frame (chat_message_of ''b'')]\<rparr>,
      write_msgs := [chat_message_of ''b'', chat_message_of ''c'']\<rparr>) \<and>
   write_msgs new_session = [] \<and> writes_in_flight (socket new_session) = 0 \<and>
   [frame (chat_message_of ''a''), frame (chat_message_of ''b'')] @
     map frame (tl [chat_message_of ''b'', chat_message_of ''c'']) =
   map (frame \<circ> chat_message_of)
     (deliveries [Deliver ''a'', Deliver ''b'', Write_completed False, Deliver ''c'',
        Write_completed True]) \<and>
   write_run [Deliver ''a'', Deliver ''b''] new_session =
   Some (new_session
     \<lparr>socket := \<lparr>reads_pending = [], writes_in_flight = 1,
                 wire = [frame (chat_message_of ''a'')]\<rparr>,
      write_msgs := [chat_message_of ''a'', chat_message_of ''b'']\<rparr>) \<and>
   write_step (Write_completed False)
     (new_session
       \<lparr>socket := \<lparr>reads_pending = [], writes_in_flight = 1,
                   wire = [frame (chat_message_of ''a'')]\<rparr>,
        write_msgs := [chat_message_of ''a'', chat_message_of ''b'']\<rparr>) =
   Some (new_session
     \<lparr>socket := \<lparr>reads_pending = [], writes_in_flight = 1,
                 wire = [frame (chat_message_of ''a''), frame (chat_message_of ''b'')]\<rparr>,
      write_msgs := [chat_message_of ''b'']\<rparr>) \<and>
   [frame (chat_message_of ''a''), frame (chat_message_of ''b'')] \<noteq> [frame (chat_message_of ''a'')]"
proof -
  let ?es = "[Deliver ''a'', Deliver ''b'', Write_completed False, Deliver ''c'', Write_completed True]"
  let ?s = "new_session
     \<lparr>socket := \<lparr>reads_pending = [], writes_in_flight = 0,
                 wire = [frame (chat_message_of ''a''), frame (chat_message_of ''b'')]\<rparr>,
      write_msgs := [chat_message_of ''b'', chat_message_of ''c'']\<rparr>"
  let ?t = "new_session
     \<lparr>socket := \<lparr>reads_pending = [], writes_in_flight = 1,
                 wire = [frame (chat_message_of ''a'')]\<rparr>,
      write_msgs := [chat_message_of ''a'', chat_message_of ''b'']\<rparr>"
  let ?t' = "new_session
     \<lparr>socket := \<lparr>reads_pending = [], writes_in_flight = 1,
                 wire = [frame (chat_message_of ''a''), frame (chat_message_of ''b'')]\<rparr>,
      write_msgs := [chat_message_of ''b'']\<rparr>"
  have r: "write_run ?es new_session = Some ?s"
    by (simp add: write_step_def session_deliver_def do_write_def pop_and_continue_def
        write_completed_def new_session_def Let_def)
  have i: "write_msgs new_session = []" "writes_in_flight (socket new_session) = 0"
    by (simp_all add: new_session_def)
  from write_loop_fifo [OF r i, of "''x''", THEN conjunct2, THEN conjunct1]
  have "wire (socket ?s) @ map frame (tl (write_msgs ?s)) =
      wire (socket new_session) @ map (frame \<circ> chat_message_of) (deliveries ?es)" .
  then have a: "[frame (chat_message_of ''a''), frame (chat_message_of ''b'')] @
     map frame (tl [chat_message_of ''b'', chat_message_of ''c'']) =
   map (frame \<circ> chat_message_of) (deliveries ?es)"
    by (simp add: new_session_def)
  have r2: "write_run [Deliver ''a'', Deliver ''b''] new_session = Some ?t"
    by (simp add: write_step_def session_deliver_def do_write_def new_session_def Let_def)
  have st: "write_step (Write_completed False) ?t = Some ?t'"
    by (simp add: write_step_def do_write_def pop_and_continue_def write_completed_def
        new_session_def Let_def)
  have ne: "[frame (chat_message_of ''a''), frame (chat_message_of ''b'')] \<noteq>
      [frame (chat_message_of ''a'')]"
    by simp
  then have "wire (socket ?t') \<noteq> wire (socket ?t)" by simp
  with write_loop_fifo [OF r2 i, of "''x''", THEN conjunct2, THEN conjunct2, THEN conjunct1,
      rule_format, of "Write_completed False" ?t'] st
  have "writes_in_flight (socket ?t') = 1" by blast
  with r i a r2 st ne show ?thesis by blast
qed

text \<open>
  The write completion of the event loop does to the session what \<open>write_step\<close> does, and
  \<^verbatim>\<open>chat_room::deliver\<close> and \<^verbatim>\<open>join\<close> reach a session only through \<open>session_deliver\<close>.
\<close>

lemma step_write_done_session:
  assumes "step sg (Write_done self ec) w = Some w'"
  shows "write_step (Write_completed ec) (sessions w self) = Some (sessions w' self)"
  using assms
  by (auto simp add: step_def write_step_def handle_write_def upd_session_def room_leave_def
      split: if_splits)

section \<open>The read loop of a session: lemmas\<close>

text \<open>What \<^verbatim>\<open>deliver\<close> and the room touch of a session is its write side only.\<close>

lemma read_side_do_write:
  "reads_pending (socket (do_write s)) = reads_pending (socket s)"
  "state (do_write s) = state s"
  by (simp_all add: do_write_def split: list.split)

lemma read_side_session_deliver:
  "reads_pending (socket (session_deliver msg s)) = reads_pending (socket s)"
  "state (session_deliver msg s) = state s"
  by (simp_all add: session_deliver_def Let_def read_side_do_write)

lemma read_side_replay:
  "reads_pending (socket (replay msgs s)) = reads_pending (socket s)"
  "state (replay msgs s) = state s"
  by (induction msgs arbitrary: s) (simp_all add: read_side_session_deliver)

lemma read_side_deliver_to:
  "reads_pending (socket (deliver_to text excluded ps ss q)) = reads_pending (socket (ss q))"
  "state (deliver_to text excluded ps ss q) = state (ss q)"
  by (induction ps arbitrary: ss) (simp_all add: read_side_session_deliver)

lemma read_side_pop_and_continue:
  "reads_pending (socket (pop_and_continue s)) = reads_pending (socket s)"
  "state (pop_and_continue s) = state s"
  by (simp_all add: pop_and_continue_def Let_def read_side_do_write)

lemma read_side_room_leave:
  "sessions (room_leave p w) = sessions w"
  "next_session (room_leave p w) = next_session w"
  "participants (room (room_leave p w)) = participants (room w) - {p}"
  by (simp_all add: room_leave_def)

lemma read_side_room_system_prompt:
  "reads_pending (socket (sessions (room_system_prompt msg p w) q)) =
     reads_pending (socket (sessions w q))"
  "state (sessions (room_system_prompt msg p w) q) = state (sessions w q)"
  "next_session (room_system_prompt msg p w) = next_session w"
  by (simp_all add: room_system_prompt_def Let_def read_side_deliver_to)

lemma read_side_room_deliver:
  "reads_pending (socket (sessions (room_deliver msg p w) q)) =
     reads_pending (socket (sessions w q))"
  "state (sessions (room_deliver msg p w) q) = state (sessions w q)"
  "next_session (room_deliver msg p w) = next_session w"
  by (simp_all add: room_deliver_def Let_def read_side_deliver_to)

lemma read_side_room_join:
  "reads_pending (socket (sessions (room_join p w) q)) = reads_pending (socket (sessions w q))"
  "state (sessions (room_join p w) q) = state (sessions w q)"
  "next_session (room_join p w) = next_session w"
  by (simp_all add: room_join_def Let_def upd_session_def read_side_room_system_prompt
      read_side_session_deliver read_side_replay)

lemma read_side_handle_write:
  "reads_pending (socket (sessions (handle_write self ec w) q)) =
     reads_pending (socket (sessions w q))"
  "state (sessions (handle_write self ec w) q) = state (sessions w q)"
  "next_session (handle_write self ec w) = next_session w"
  by (simp_all add: handle_write_def upd_session_def read_side_room_leave
      read_side_pop_and_continue)

lemma read_side_handle_read_header:
  "reads_pending (socket (sessions (handle_read_header sg self ec bytes w) q)) =
     (if q = self \<and> \<not> ec \<and> fst (decode_header sg (recv_header bytes (read_msg (sessions w self))))
      then reads_pending (socket (sessions w q)) @ [Read_body]
      else reads_pending (socket (sessions w q)))"
  "state (sessions (handle_read_header sg self ec bytes w) q) = state (sessions w q)"
  "next_session (handle_read_header sg self ec bytes w) = next_session w"
  by (simp_all add: handle_read_header_def upd_session_def read_side_room_leave do_read_body_def
      Let_def split: prod.split)

lemma read_side_handle_read_body:
  "reads_pending (socket (sessions (handle_read_body self ec bytes w) q)) =
     (if q = self \<and> \<not> ec then reads_pending (socket (sessions w q)) @ [Read_header]
      else reads_pending (socket (sessions w q)))"
  "q \<noteq> self \<or> ec \<Longrightarrow> state (sessions (handle_read_body self ec bytes w) q) = state (sessions w q)"
  "next_session (handle_read_body self ec bytes w) = next_session w"
  by (simp_all add: handle_read_body_def upd_session_def read_side_room_leave do_read_header_def
      Let_def read_side_room_join read_side_room_deliver read_side_session_deliver)

lemma read_side_upd_write_completed:
  "reads_pending (socket (sessions (upd_session p write_completed w) q)) =
     reads_pending (socket (sessions w q))"
  "state (sessions (upd_session p write_completed w) q) = state (sessions w q)"
  "next_session (upd_session p f w) = next_session w"
  "room (upd_session p f w) = room w"
  by (simp_all add: upd_session_def write_completed_def)

lemma read_side_upd_read_completed:
  "reads_pending (socket (sessions (upd_session p read_completed w) q)) =
     (if q = p then tl (reads_pending (socket (sessions w q)))
      else reads_pending (socket (sessions w q)))"
  "state (sessions (upd_session p read_completed w) q) = state (sessions w q)"
  "read_msg (sessions (upd_session p read_completed w) q) = read_msg (sessions w q)"
  by (simp_all add: upd_session_def read_completed_def)

lemma read_side_start:
  "reads_pending (socket (start rname new_session)) = [Read_header]"
  "state (start rname new_session) = NOT_AUTHED"
  by (simp_all add: start_def do_read_header_def read_side_session_deliver new_session_simps)

text \<open>A session with no read outstanding never gets one, and its state never changes.\<close>

lemma step_no_read:
  assumes "reads_pending (socket (sessions w self)) = []" and "self < next_session w"
    and "step sg e w = Some w'"
  shows "reads_pending (socket (sessions w' self)) = [] \<and> self < next_session w' \<and>
         state (sessions w' self) = state (sessions w self)"
proof (cases e)
  case Accept
  with assms show ?thesis by (auto simp add: step_def)
next
  case (Read_done q ec bytes)
  with assms have ne: "q \<noteq> self" by (auto simp add: step_def)
  from assms(3) Read_done obtain rop rest where
    rp: "reads_pending (socket (sessions w q)) = rop # rest"
    by (cases "reads_pending (socket (sessions w q))") (auto simp add: step_def)
  show ?thesis
  proof (cases rop)
    case Read_header
    with assms rp Read_done ne show ?thesis
      by (auto simp add: step_def read_side_handle_read_header read_side_upd_read_completed
          read_side_upd_write_completed split: if_splits)
  next
    case Read_body
    with assms rp Read_done ne show ?thesis
      by (auto simp add: step_def read_side_handle_read_body read_side_upd_read_completed
          read_side_upd_write_completed split: if_splits)
  qed
next
  case (Write_done q ec)
  with assms show ?thesis
    by (auto simp add: step_def read_side_handle_write read_side_upd_write_completed
        split: if_splits)
qed

lemma run_no_read:
  assumes "run sg es w = Some w'"
    and "reads_pending (socket (sessions w self)) = []" and "self < next_session w"
  shows "reads_pending (socket (sessions w' self)) = [] \<and>
         state (sessions w' self) = state (sessions w self)"
  using assms
proof (induction es arbitrary: w)
  case Nil
  then show ?case by simp
next
  case (Cons e es)
  from Cons.prems(1) obtain w1 where st: "step sg e w = Some w1" and r: "run sg es w1 = Some w'"
    by (auto split: option.splits)
  from step_no_read [OF Cons.prems(2,3) st] Cons.IH [OF r] show ?case by simp
qed

text \<open>
  In every world reached from the initial one, a session has at most one read outstanding,
  and an address not yet handed out has none.
\<close>

lemma step_reads_bounded:
  assumes "\<forall>q. length (reads_pending (socket (sessions w q))) \<le> 1"
    and "\<forall>q\<ge>next_session w. reads_pending (socket (sessions w q)) = []"
    and "step sg e w = Some w'"
  shows "(\<forall>q. length (reads_pending (socket (sessions w' q))) \<le> 1) \<and>
         (\<forall>q\<ge>next_session w'. reads_pending (socket (sessions w' q)) = [])"
proof (cases e)
  case Accept
  with assms show ?thesis by (auto simp add: step_def read_side_start)
next
  case (Read_done p ec bytes)
  from assms(3) Read_done obtain rop rest where
    rp: "reads_pending (socket (sessions w p)) = rop # rest"
    by (cases "reads_pending (socket (sessions w p))") (auto simp add: step_def)
  with assms(1) [rule_format, of p] have rest: "rest = []" by simp
  have lt: "p < next_session w"
  proof (rule ccontr)
    assume "\<not> p < next_session w"
    then have "next_session w \<le> p" by simp
    with assms(2) have "reads_pending (socket (sessions w p)) = []" by blast
    with rp show False by simp
  qed
  show ?thesis
  proof (cases rop)
    case Read_header
    with assms rp rest lt Read_done show ?thesis
      by (auto simp add: step_def read_side_handle_read_header read_side_upd_read_completed
          read_side_upd_write_completed split: if_splits)
  next
    case Read_body
    with assms rp rest lt Read_done show ?thesis
      by (auto simp add: step_def read_side_handle_read_body read_side_upd_read_completed
          read_side_upd_write_completed split: if_splits)
  qed
next
  case (Write_done p ec)
  with assms show ?thesis
    by (auto simp add: step_def read_side_handle_write read_side_upd_write_completed
        split: if_splits)
qed

lemma run_reads_bounded:
  assumes "run sg es w = Some w'"
    and "\<forall>q. length (reads_pending (socket (sessions w q))) \<le> 1"
    and "\<forall>q\<ge>next_session w. reads_pending (socket (sessions w q)) = []"
  shows "(\<forall>q. length (reads_pending (socket (sessions w' q))) \<le> 1) \<and>
         (\<forall>q\<ge>next_session w'. reads_pending (socket (sessions w' q)) = [])"
  using assms
proof (induction es arbitrary: w)
  case Nil
  then show ?case by simp
next
  case (Cons e es)
  from Cons.prems(1) obtain w1 where st: "step sg e w = Some w1" and r: "run sg es w1 = Some w'"
    by (auto split: option.splits)
  from step_reads_bounded [OF Cons.prems(2,3) st]
  have "\<forall>q. length (reads_pending (socket (sessions w1 q))) \<le> 1"
    and "\<forall>q\<ge>next_session w1. reads_pending (socket (sessions w1 q)) = []" by blast+
  from Cons.IH [OF r this] show ?case .
qed

lemma reachable_reads_bounded:
  assumes "run sg es initial_world = Some w"
  shows "(\<forall>q. length (reads_pending (socket (sessions w q))) \<le> 1) \<and>
         (\<forall>q\<ge>next_session w. reads_pending (socket (sessions w q)) = [])"
  by (rule run_reads_bounded [OF assms]) (simp_all add: initial_world_def new_session_simps)

lemma step_read_failure:
  assumes "reads_pending (socket (sessions w self)) = [rop]"
    and "ec \<or> (rop = Read_header \<and> length bytes = header_length \<and>
           \<not> fst (decode_header sg (recv_header bytes (read_msg (sessions w self)))))"
  shows "\<exists>w'. step sg (Read_done self ec bytes) w = Some w' \<and>
      participants (room w') = participants (room w) - {self} \<and>
      state (sessions w' self) = state (sessions w self) \<and>
      reads_pending (socket (sessions w' self)) = [] \<and>
      next_session w' = next_session w"
proof (cases rop)
  case Read_header
  let ?w' = "handle_read_header sg self ec bytes (upd_session self read_completed w)"
  from assms Read_header have st: "step sg (Read_done self ec bytes) w = Some ?w'"
    by (auto simp add: step_def)
  from assms(2) have p: "participants (room ?w') = participants (room w) - {self}"
    by (auto simp add: handle_read_header_def Let_def read_side_room_leave
        read_side_upd_read_completed read_side_upd_write_completed split: prod.split)
  from assms Read_header have r: "reads_pending (socket (sessions ?w' self)) = []"
    by (auto simp add: read_side_handle_read_header read_side_upd_read_completed)
  have s: "state (sessions ?w' self) = state (sessions w self)"
    by (simp add: read_side_handle_read_header read_side_upd_read_completed)
  have n: "next_session ?w' = next_session w"
    by (simp add: read_side_handle_read_header read_side_upd_write_completed)
  from st p r s n show ?thesis by blast
next
  case Read_body
  let ?w' = "handle_read_body self ec bytes (upd_session self read_completed w)"
  from assms Read_body have ec: ec by simp
  with assms Read_body have st: "step sg (Read_done self ec bytes) w = Some ?w'"
    by (auto simp add: step_def)
  from ec have p: "participants (room ?w') = participants (room w) - {self}"
    by (simp add: handle_read_body_def read_side_room_leave read_side_upd_write_completed)
  from assms ec have r: "reads_pending (socket (sessions ?w' self)) = []"
    by (simp add: read_side_handle_read_body read_side_upd_read_completed)
  from ec have s: "state (sessions ?w' self) = state (sessions w self)"
    by (simp add: read_side_handle_read_body read_side_upd_read_completed)
  have n: "next_session ?w' = next_session w"
    by (simp add: read_side_handle_read_body read_side_upd_write_completed)
  from st p r s n show ?thesis by blast
qed

text \<open>
  Claim C3, as the code has it. In every world the server can reach, when a read of a
  session fails (an error code on the header or on the body read, or a header that
  \<^verbatim>\<open>decode_header\<close> refuses), the handler calls \<^verbatim>\<open>room_.leave\<close> on the session, issues no
  read, and no later event of any session issues one for it. The field \<^verbatim>\<open>state_\<close> keeps the
  value it had: no handler assigns \<^verbatim>\<open>FAILED\<close> or any other terminal value.
\<close>

theorem read_failure_leaves_and_stops_reading:
  assumes "run sg es0 initial_world = Some w"
    and "reads_pending (socket (sessions w self)) = rop # rest"
    and "ec \<or> (rop = Read_header \<and> length bytes = header_length \<and>
           \<not> fst (decode_header sg (recv_header bytes (read_msg (sessions w self)))))"
  shows "\<exists>w'. step sg (Read_done self ec bytes) w = Some w' \<and>
      participants (room w') = participants (room w) - {self} \<and>
      state (sessions w' self) = state (sessions w self) \<and>
      (\<forall>es w''. run sg es w' = Some w'' \<longrightarrow>
         reads_pending (socket (sessions w'' self)) = [] \<and>
         state (sessions w'' self) = state (sessions w self))"
proof -
  note b = reachable_reads_bounded [OF assms(1)]
  from b have "length (reads_pending (socket (sessions w self))) \<le> 1" by blast
  with assms(2) have one: "reads_pending (socket (sessions w self)) = [rop]" by simp
  have lt: "self < next_session w"
  proof (rule ccontr)
    assume "\<not> self < next_session w"
    then have "next_session w \<le> self" by simp
    with b have "reads_pending (socket (sessions w self)) = []" by blast
    with assms(2) show False by simp
  qed
  from step_read_failure [OF one assms(3)] obtain w' where
    st: "step sg (Read_done self ec bytes) w = Some w'" and
    p: "participants (room w') = participants (room w) - {self}" and
    s: "state (sessions w' self) = state (sessions w self)" and
    r: "reads_pending (socket (sessions w' self)) = []" and
    n: "next_session w' = next_session w"
    by blast
  from lt n have lt': "self < next_session w'" by simp
  have "\<forall>es w''. run sg es w' = Some w'' \<longrightarrow>
         reads_pending (socket (sessions w'' self)) = [] \<and>
         state (sessions w'' self) = state (sessions w self)"
    using run_no_read [OF _ r lt'] s by auto
  with st p s show ?thesis by blast
qed

theorem read_failure_leaves_and_stops_reading_witness:
  "run True [Accept] initial_world =
     Some (initial_world\<lparr>sessions := (sessions initial_world)(0 := start ''10001'' new_session),
                          next_session := 1\<rparr>) \<and>
   reads_pending (socket (sessions
     (initial_world\<lparr>sessions := (sessions initial_world)(0 := start ''10001'' new_session),
                     next_session := 1\<rparr>) 0)) = Read_header # [] \<and>
   step True (Read_done 0 True [])
     (initial_world\<lparr>sessions := (sessions initial_world)(0 := start ''10001'' new_session),
                     next_session := 1\<rparr>) =
     Some (room_leave 0 (upd_session 0 read_completed
       (initial_world\<lparr>sessions := (sessions initial_world)(0 := start ''10001'' new_session),
                       next_session := 1\<rparr>))) \<and>
   participants (room (room_leave 0 (upd_session 0 read_completed
       (initial_world\<lparr>sessions := (sessions initial_world)(0 := start ''10001'' new_session),
                       next_session := 1\<rparr>)))) = {} \<and>
   run True [Write_done 0 False] (room_leave 0 (upd_session 0 read_completed
       (initial_world\<lparr>sessions := (sessions initial_world)(0 := start ''10001'' new_session),
                       next_session := 1\<rparr>))) \<noteq> None \<and>
   reads_pending (socket (sessions (the (run True [Write_done 0 False]
     (room_leave 0 (upd_session 0 read_completed
       (initial_world\<lparr>sessions := (sessions initial_world)(0 := start ''10001'' new_session),
                       next_session := 1\<rparr>))))) 0)) = [] \<and>
   state (sessions (the (run True [Write_done 0 False]
     (room_leave 0 (upd_session 0 read_completed
       (initial_world\<lparr>sessions := (sessions initial_world)(0 := start ''10001'' new_session),
                       next_session := 1\<rparr>))))) 0) = NOT_AUTHED"
proof -
  let ?w = "initial_world\<lparr>sessions := (sessions initial_world)(0 := start ''10001'' new_session),
                          next_session := 1\<rparr>"
  let ?w' = "room_leave 0 (upd_session 0 read_completed ?w)"
  have r: "run True [Accept] initial_world = Some ?w"
    by (simp add: step_def initial_world_def)
  have p: "reads_pending (socket (sessions ?w 0)) = Read_header # []"
    by (simp add: read_side_start)
  have s: "state (sessions ?w 0) = NOT_AUTHED" "participants (room ?w) = {}"
    by (simp_all add: read_side_start initial_world_def)
  have f: "True \<or> (Read_header = Read_header \<and> length [] = header_length \<and>
           \<not> fst (decode_header True (recv_header [] (read_msg (sessions ?w 0)))))"
    by simp
  have st: "step True (Read_done 0 True []) ?w = Some ?w'"
    using p by (simp add: step_def handle_read_header_def)
  have "writes_in_flight (socket (sessions ?w' 0)) = 1"
    by (simp add: room_leave_def upd_session_def read_completed_def start_def
        do_read_header_def session_deliver_def do_write_def new_session_def Let_def)
  then have r2: "run True [Write_done 0 False] ?w' \<noteq> None"
    by (simp add: step_def)
  then obtain w'' where r2': "run True [Write_done 0 False] ?w' = Some w''" by blast
  from read_failure_leaves_and_stops_reading [OF r p f] st
  have c: "participants (room ?w') = participants (room ?w) - {0}"
    and d: "\<forall>es w''. run True es ?w' = Some w'' \<longrightarrow>
         reads_pending (socket (sessions w'' 0)) = [] \<and>
         state (sessions w'' 0) = state (sessions ?w 0)"
    by auto
  from d r2' have "reads_pending (socket (sessions w'' 0)) = []"
    and "state (sessions w'' 0) = state (sessions ?w 0)" by blast+
  with r2' s(1) have e: "reads_pending (socket (sessions (the (run True [Write_done 0 False] ?w')) 0)) = []"
    "state (sessions (the (run True [Write_done 0 False] ?w')) 0) = NOT_AUTHED"
    by simp_all
  from c s(2) have c': "participants (room ?w') = {}" by simp
  show ?thesis by (intro conjI r p st c' r2 e)
qed

text \<open>
  Claim C3 as stated fails on the state: a session that has sent its name is \<^verbatim>\<open>AUTHED\<close>;
  when its next header read ends with an error, its \<^verbatim>\<open>state_\<close> is still \<^verbatim>\<open>AUTHED\<close>, not
  the terminal \<^verbatim>\<open>FAILED\<close>.
\<close>

theorem read_failure_keeps_state_counterexample:
  "run True [Accept, Read_done 0 False (map char_of [0, 0, 0, 1 :: nat]), Read_done 0 False ''a'',
             Read_done 0 True []] initial_world \<noteq> None \<and>
   state (sessions (the (run True [Accept, Read_done 0 False (map char_of [0, 0, 0, 1 :: nat]),
             Read_done 0 False ''a'', Read_done 0 True []] initial_world)) 0) = AUTHED \<and>
   state (sessions (the (run True [Accept, Read_done 0 False (map char_of [0, 0, 0, 1 :: nat]),
             Read_done 0 False ''a'', Read_done 0 True []] initial_world)) 0) \<noteq> FAILED"
  by (simp add: step_def handle_read_header_def handle_read_body_def upd_session_def
      read_completed_def start_def session_deliver_def do_write_def do_read_header_def
      do_read_body_def room_join_def room_system_prompt_def room_leave_def new_session_def
      initial_world_def Let_def decode_header_def recv_header_def recv_body_def memcpy_def
      chat_message_default_def header_length_def max_body_length_def char_to_int_def
      int_to_size_t_def byte_char_of)

text \<open>
  The disconnect seen twice: a failed read and then a failed write of the same session call
  \<^verbatim>\<open>room_.leave\<close> twice, and the members afterwards are those before without the session.
\<close>

lemma read_and_write_failure_leave_once:
  assumes "step sg (Read_done p True bytes) w = Some w1"
    and "step sg (Write_done p True) w1 = Some w2"
  shows "participants (room w2) = participants (room w) - {p}"
proof -
  from assms(1) have "participants (room w1) = participants (room w) - {p}"
    by (auto simp add: step_def handle_read_header_def handle_read_body_def read_side_room_leave
        read_side_upd_write_completed split: list.splits read_op.splits if_splits)
  moreover from assms(2) have "participants (room w2) = participants (room w1) - {p}"
    by (auto simp add: step_def handle_write_def read_side_room_leave
        read_side_upd_write_completed split: if_splits)
  ultimately show ?thesis by auto
qed

end
